theory Spec2Isabelle
  imports Main "HOL-Library.Multiset"
begin

unbundle bit_operations_syntax

section \<open>The hash map of hashmap.h\<close>

text \<open>
  The class \<^verbatim>\<open>HashMap<KeyType, ValueType, Hash>\<close> is an open-addressing table: a vector
  \<^verbatim>\<open>table_\<close> of owning pointers to (key, value) pairs (a null pointer is an empty slot), a
  parallel vector \<^verbatim>\<open>from_\<close> of displacement counters, the counters \<^verbatim>\<open>size_\<close> and
  \<^verbatim>\<open>capacity_\<close>, and the probe limit \<^verbatim>\<open>BLOCK_SIZE\<close>. The members become a record
  (a field \<^verbatim>\<open>x_\<close> is named \<open>x_f\<close>, since a name cannot end in an underscore here); the
  hash functor \<^verbatim>\<open>hasher_\<close>, fixed at construction, is passed to every operation as the
  parameter \<open>hasher\<close>.

  \<^verbatim>\<open>size_t\<close> is modelled by \<open>nat\<close>. The only subtractions of the source, \<^verbatim>\<open>capacity_ - 1\<close>
  and \<^verbatim>\<open>size_--\<close>, have their wrap-around at zero written out (\<open>size_t_dec\<close>); additions
  and doublings stay far below \<open>2 ^ 64\<close> for any table that fits in memory.

  The operations \<^verbatim>\<open>find\<close>, \<^verbatim>\<open>insert\<close>, \<^verbatim>\<open>size\<close> and \<^verbatim>\<open>empty\<close> are named \<open>find_hm\<close>,
  \<open>insert_hm\<close>, \<open>size_hm\<close> and \<open>empty_hm\<close>, the plain names being constants of the library.

  Undefined behaviour of the C++ (an index outside a vector, dereferencing a null
  pointer or the end iterator) is the error value \<open>Undefined\<close>; the exception
  \<^verbatim>\<open>std::out_of_range("Key not found")\<close> thrown by \<^verbatim>\<open>at\<close> is \<open>KeyNotFound\<close>.

  The constructors from a range and from an initializer list, the copy constructor and
  the copy assignment are loops of \<^verbatim>\<open>insert\<close> calls (\<open>insert_all\<close>); they, the
  decrement of the iterator and \<^verbatim>\<open>hash_function\<close> are not used by the properties below.
\<close>

datatype error = Undefined | KeyNotFound

record ('k, 'v) HashMap =
  size_f :: nat
  capacity_f :: nat
  table_f :: "('k \<times> 'v) option list"
  from_f :: "nat list"
  BLOCK_SIZE :: nat

definition STANDARD_DIFF :: nat where
  "STANDARD_DIFF = 5"

definition DEFAULT_BLOCK_SIZE :: nat where
  "DEFAULT_BLOCK_SIZE = 64"

definition size_t_dec :: "nat \<Rightarrow> nat" where
  "size_t_dec n = (if n = 0 then 2 ^ 64 - 1 else n - 1)"

text \<open>The default constructor, and \<^verbatim>\<open>clear\<close>.\<close>

definition construct :: "('k, 'v) HashMap" where
  "construct = \<lparr>size_f = 0, capacity_f = 1, table_f = [None], from_f = [0],
     BLOCK_SIZE = DEFAULT_BLOCK_SIZE\<rparr>"

definition resize :: "'a list \<Rightarrow> nat \<Rightarrow> 'a \<Rightarrow> 'a list" where
  "resize xs n d = take n xs @ replicate (n - length xs) d"

definition clear :: "('k, 'v) HashMap \<Rightarrow> error + ('k, 'v) HashMap" where
  "clear s =
     (let t = resize (table_f s) 1 None
      in if 0 < length t
         then Inr (s\<lparr>size_f := 0, capacity_f := 1, table_f := t[0 := None],
                    from_f := resize (from_f s) 1 0, BLOCK_SIZE := DEFAULT_BLOCK_SIZE\<rparr>)
         else Inl Undefined)"

subsection \<open>Buckets and probing\<close>

definition GetBucket :: "('k \<Rightarrow> nat) \<Rightarrow> ('k, 'v) HashMap \<Rightarrow> 'k \<Rightarrow> nat" where
  "GetBucket hasher s key = hasher key AND size_t_dec (capacity_f s)"

definition GetNext :: "('k, 'v) HashMap \<Rightarrow> nat \<Rightarrow> nat" where
  "GetNext s h = (h + 1) AND size_t_dec (capacity_f s)"

text \<open>
  The loop of \<^verbatim>\<open>FindPosition\<close>, with its two loop variables \<open>it\<close> and \<open>h\<close>; it returns the
  slot of the key, or \<^verbatim>\<open>capacity_\<close> when the window is exhausted.
\<close>

function FindPosition_loop ::
  "('k, 'v) HashMap \<Rightarrow> 'k \<Rightarrow> nat \<Rightarrow> nat \<Rightarrow> error + nat" where
  "FindPosition_loop s key it h =
     (if it < BLOCK_SIZE s then
        (if h < length (table_f s) then
           (case table_f s ! h of
              None \<Rightarrow> FindPosition_loop s key (it + 1) (GetNext s h)
            | Some e \<Rightarrow>
                if fst e = key then Inr h
                else FindPosition_loop s key (it + 1) (GetNext s h))
         else Inl Undefined)
      else Inr (capacity_f s))"
  by pat_completeness auto
termination
  by (relation "measure (\<lambda>(s, key, it, h). BLOCK_SIZE s - it)") auto

definition FindPosition :: "('k \<Rightarrow> nat) \<Rightarrow> ('k, 'v) HashMap \<Rightarrow> 'k \<Rightarrow> error + nat" where
  "FindPosition hasher s key = FindPosition_loop s key 0 (GetBucket hasher s key)"

subsection \<open>Iterators\<close>

text \<open>
  An iterator is a cursor into \<^verbatim>\<open>table_\<close> together with the end of the vector; the cursor
  is modelled by its index, \<open>length (table_f s)\<close> being \<^verbatim>\<open>table_.end()\<close>.
\<close>

definition end_it :: "('k, 'v) HashMap \<Rightarrow> nat" where
  "end_it s = length (table_f s)"

text \<open>The \<^verbatim>\<open>while\<close> loop of \<^verbatim>\<open>operator++\<close>, and the operator itself.\<close>

function skip_empty :: "'a option list \<Rightarrow> nat \<Rightarrow> error + nat" where
  "skip_empty t i =
     (if i = length t then Inr i
      else if length t < i then Inl Undefined
      else if t ! i = None then skip_empty t (i + 1)
      else Inr i)"
  by pat_completeness auto
termination
  by (relation "measure (\<lambda>(t, i). length t - i)") auto

definition iter_next :: "'a option list \<Rightarrow> nat \<Rightarrow> error + nat" where
  "iter_next t i = skip_empty t (i + 1)"

definition deref :: "'a option list \<Rightarrow> nat \<Rightarrow> error + 'a" where
  "deref t i =
     (if i < length t then (case t ! i of None \<Rightarrow> Inl Undefined | Some e \<Rightarrow> Inr e)
      else Inl Undefined)"

definition begin_it :: "('k, 'v) HashMap \<Rightarrow> error + nat" where
  "begin_it s =
     (if 0 < length (table_f s) then
        (if table_f s ! 0 = None then iter_next (table_f s) 0 else Inr 0)
      else Inl Undefined)"

definition find_hm :: "('k \<Rightarrow> nat) \<Rightarrow> ('k, 'v) HashMap \<Rightarrow> 'k \<Rightarrow> error + nat" where
  "find_hm hasher s key =
     (case FindPosition hasher s key of
        Inl e \<Rightarrow> Inl e
      | Inr h \<Rightarrow> if h \<noteq> capacity_f s then Inr h else Inr (length (table_f s)))"

definition size_hm :: "('k, 'v) HashMap \<Rightarrow> nat" where
  "size_hm s = size_f s"

definition empty_hm :: "('k, 'v) HashMap \<Rightarrow> bool" where
  "empty_hm s = (size_hm s = 0)"

definition at :: "('k \<Rightarrow> nat) \<Rightarrow> ('k, 'v) HashMap \<Rightarrow> 'k \<Rightarrow> error + 'v" where
  "at hasher s key =
     (case find_hm hasher s key of
        Inl e \<Rightarrow> Inl e
      | Inr it \<Rightarrow>
          if it = end_it s then Inl KeyNotFound
          else (case deref (table_f s) it of Inl e \<Rightarrow> Inl e | Inr p \<Rightarrow> Inr (snd p)))"

subsection \<open>Insertion and rebuilding\<close>

text \<open>
  The inner \<^verbatim>\<open>while (diff < BLOCK_SIZE && ptr)\<close> loop of \<^verbatim>\<open>insert\<close>: \<open>ptr\<close> is the carried
  entry (\<open>None\<close> for the null pointer), \<open>diff\<close> its displacement and \<open>h2\<close> the slot under
  inspection. It returns the table and the pointer as the loop leaves them.
\<close>

function insert_walk ::
  "('k, 'v) HashMap \<Rightarrow> nat \<Rightarrow> nat \<Rightarrow> ('k \<times> 'v) option \<Rightarrow>
   error + (('k, 'v) HashMap \<times> ('k \<times> 'v) option)" where
  "insert_walk s h2 diff ptr =
     (if diff < BLOCK_SIZE s \<and> ptr \<noteq> None then
        (if h2 < length (table_f s) \<and> h2 < length (from_f s) then
           (if table_f s ! h2 = None \<or> from_f s ! h2 < diff then
              insert_walk
                (s\<lparr>table_f := (table_f s)[h2 := ptr], from_f := (from_f s)[h2 := diff]\<rparr>)
                (GetNext s h2) (from_f s ! h2 + 1) (table_f s ! h2)
            else insert_walk s (GetNext s h2) (diff + 1) ptr)
         else Inl Undefined)
      else Inr (s, ptr))"
  by pat_completeness auto
termination
proof (relation "(\<lambda>(s, h2, diff, ptr). if ptr = None then 0 else Suc 0) <*mlex*>
    (\<lambda>(s, h2, diff, ptr). sum_list (map (\<lambda>f. BLOCK_SIZE s - f) (from_f s))) <*mlex*>
    measure (\<lambda>(s, h2, diff, ptr). BLOCK_SIZE s - diff)", goal_cases)
  case 1
  show ?case by (simp add: wf_mlex)
next
  case (2 s h2 diff ptr)
  show ?case
  proof (cases "table_f s ! h2")
    case None
    with 2 show ?thesis by (auto simp: mlex_prod_def)
  next
    case (Some e)
    with 2 have lt: "from_f s ! h2 < diff" and lb: "diff < BLOCK_SIZE s"
      and len: "h2 < length (from_f s)" by auto
    have sum_list_map_update_less: "i < length xs \<Longrightarrow> g v < g (xs ! i) \<Longrightarrow>
        sum_list (map g (xs[i := v])) < sum_list (map g xs)"
      for i v and xs :: "nat list" and g :: "nat \<Rightarrow> nat"
    proof (induction xs arbitrary: i)
      case Nil
      then show ?case by simp
    next
      case (Cons x xs)
      then show ?case by (cases i) auto
    qed
    have "sum_list (map (\<lambda>f. BLOCK_SIZE s - f) ((from_f s)[h2 := diff]))
        < sum_list (map (\<lambda>f. BLOCK_SIZE s - f) (from_f s))"
      using len lt lb
      by (intro sum_list_map_update_less) auto
    with 2 Some show ?thesis by (auto simp: mlex_prod_def)
  qed
next
  case (3 s h2 diff ptr)
  then show ?case by (auto simp: mlex_prod_def)
qed

text \<open>
  \<^verbatim>\<open>while (size_ * STANDARD_DIFF > capacity_) capacity_ <<= 1\<close>, the loop of \<^verbatim>\<open>Rebuild\<close>
  that chooses the new capacity. From capacity 0 it would spin forever (\<open>None\<close>);
  \<^verbatim>\<open>Rebuild\<close> starts it at 1.
\<close>

function grow_capacity :: "nat \<Rightarrow> nat \<Rightarrow> nat option" where
  "grow_capacity sz c =
     (if sz * STANDARD_DIFF > c then
        (if c = 0 then None else grow_capacity sz (c * 2))
      else Some c)"
  by pat_completeness auto
termination
  by (relation "measure (\<lambda>(sz, c). sz * STANDARD_DIFF - c)") auto

text \<open>\<^verbatim>\<open>for (auto &elem: values) ++cnt[GetBucket(elem->first)]\<close>\<close>

fun count_buckets ::
  "('k \<Rightarrow> nat) \<Rightarrow> ('k, 'v) HashMap \<Rightarrow> ('k \<times> 'v) list \<Rightarrow> nat list \<Rightarrow> error + nat list" where
  "count_buckets hasher s [] cnt = Inr cnt"
| "count_buckets hasher s (elem # es) cnt =
     (let b = GetBucket hasher s (fst elem)
      in if b < length cnt then count_buckets hasher s es (cnt[b := cnt ! b + 1])
         else Inl Undefined)"

text \<open>\<^verbatim>\<open>*std::max_element(cnt.begin(), cnt.end())\<close>: on an empty range it dereferences the end.\<close>

definition max_element :: "nat list \<Rightarrow> error + nat" where
  "max_element cnt = (case cnt of [] \<Rightarrow> Inl Undefined | c # cs \<Rightarrow> Inr (fold max cs c))"

text \<open>
  \<^verbatim>\<open>insert\<close> and \<^verbatim>\<open>Rebuild\<close> call each other, and the \<^verbatim>\<open>while (true)\<close> loop of \<^verbatim>\<open>insert\<close>
  has no bound. The model carries fuel: one unit is spent by every turn of that loop,
  and the reinsertions of a \<^verbatim>\<open>Rebuild\<close> run on the fuel that is left. The result \<open>None\<close>
  means that the fuel did not suffice; a call that returns \<open>None\<close> for every amount of
  fuel is a call that never returns.

  \<open>insert_all\<close> is the loop \<^verbatim>\<open>for (auto &p: values) insert(*p)\<close>; \<open>Rebuild_with\<close> and
  \<open>insert_with\<close> are the bodies of \<^verbatim>\<open>Rebuild\<close> and \<^verbatim>\<open>insert\<close> over the function they call.
\<close>

type_synonym ('k, 'v) result = "(error + ('k, 'v) HashMap) option"

fun insert_all ::
  "(('k, 'v) HashMap \<Rightarrow> ('k \<times> 'v) \<Rightarrow> ('k, 'v) result) \<Rightarrow>
   ('k, 'v) HashMap \<Rightarrow> ('k \<times> 'v) list \<Rightarrow> ('k, 'v) result" where
  "insert_all ins s [] = Some (Inr s)"
| "insert_all ins s (p # ps) =
     (case ins s p of
        None \<Rightarrow> None
      | Some (Inl e) \<Rightarrow> Some (Inl e)
      | Some (Inr s') \<Rightarrow> insert_all ins s' ps)"

definition collect_values :: "('k, 'v) HashMap \<Rightarrow> ('k \<times> 'v) list" where
  "collect_values s = map the (filter (\<lambda>it_elem. it_elem \<noteq> None) (table_f s))"

definition Rebuild_with ::
  "(('k, 'v) HashMap \<Rightarrow> ('k \<times> 'v) \<Rightarrow> ('k, 'v) result) \<Rightarrow>
   ('k \<Rightarrow> nat) \<Rightarrow> ('k, 'v) HashMap \<Rightarrow> ('k, 'v) result" where
  "Rebuild_with ins hasher s =
     (let values = collect_values s;
          moved = map (\<lambda>it_elem. None) (table_f s)
      in case grow_capacity (size_f s) 1 of
           None \<Rightarrow> None
         | Some c \<Rightarrow>
             (let s1 = s\<lparr>capacity_f := c, table_f := resize moved c None,
                         from_f := resize (from_f s) c 0\<rparr>
              in case count_buckets hasher s1 values (replicate c 0) of
                   Inl e \<Rightarrow> Some (Inl e)
                 | Inr cnt \<Rightarrow>
                     (case max_element cnt of
                        Inl e \<Rightarrow> Some (Inl e)
                      | Inr m \<Rightarrow>
                          insert_all ins
                            (s1\<lparr>BLOCK_SIZE := max DEFAULT_BLOCK_SIZE (2 * m), size_f := 0\<rparr>)
                            values)))"

definition insert_with ::
  "(('k, 'v) HashMap \<Rightarrow> ('k \<times> 'v) \<Rightarrow> ('k, 'v) result) \<Rightarrow>
   ('k \<Rightarrow> nat) \<Rightarrow> ('k, 'v) HashMap \<Rightarrow> ('k \<times> 'v) \<Rightarrow> ('k, 'v) result" where
  "insert_with loop hasher s elem =
     (case find_hm hasher s (fst elem) of
        Inl e \<Rightarrow> Some (Inl e)
      | Inr it \<Rightarrow> if it \<noteq> end_it s then Some (Inr s) else loop s elem)"

text \<open>
  The \<^verbatim>\<open>while (true)\<close> loop of \<^verbatim>\<open>insert\<close>, entered with the entry \<open>ptr\<close> in hand: the walk
  from the entry's bucket, then either success or \<^verbatim>\<open>Rebuild()\<close> and another turn with
  whatever entry the walk left in \<open>ptr\<close>.
\<close>

primrec insert_loop ::
  "nat \<Rightarrow> ('k \<Rightarrow> nat) \<Rightarrow> ('k, 'v) HashMap \<Rightarrow> ('k \<times> 'v) \<Rightarrow> ('k, 'v) result" where
  "insert_loop 0 hasher s ptr = None"
| "insert_loop (Suc fuel) hasher s ptr =
     (case insert_walk s (GetBucket hasher s (fst ptr)) 0 (Some ptr) of
        Inl e \<Rightarrow> Some (Inl e)
      | Inr (s', None) \<Rightarrow> Some (Inr (s'\<lparr>size_f := size_f s' + 1\<rparr>))
      | Inr (s', Some p) \<Rightarrow>
          (case Rebuild_with (insert_with (insert_loop fuel hasher) hasher) hasher s' of
             None \<Rightarrow> None
           | Some (Inl e) \<Rightarrow> Some (Inl e)
           | Some (Inr s'') \<Rightarrow> insert_loop fuel hasher s'' p))"

definition insert_hm ::
  "nat \<Rightarrow> ('k \<Rightarrow> nat) \<Rightarrow> ('k, 'v) HashMap \<Rightarrow> ('k \<times> 'v) \<Rightarrow> ('k, 'v) result" where
  "insert_hm fuel hasher = insert_with (insert_loop fuel hasher) hasher"

definition Rebuild :: "nat \<Rightarrow> ('k \<Rightarrow> nat) \<Rightarrow> ('k, 'v) HashMap \<Rightarrow> ('k, 'v) result" where
  "Rebuild fuel hasher = Rebuild_with (insert_hm fuel hasher) hasher"

subsection \<open>Erasure and keyed access\<close>

definition erase :: "('k \<Rightarrow> nat) \<Rightarrow> ('k, 'v) HashMap \<Rightarrow> 'k \<Rightarrow> error + ('k, 'v) HashMap" where
  "erase hasher s key =
     (case FindPosition hasher s key of
        Inl e \<Rightarrow> Inl e
      | Inr h \<Rightarrow>
          if h = capacity_f s then Inr s
          else if h < length (table_f s)
          then Inr (s\<lparr>size_f := size_t_dec (size_f s), table_f := (table_f s)[h := None]\<rparr>)
          else Inl Undefined)"

text \<open>
  \<^verbatim>\<open>operator[]\<close> returns a reference into the table; the model returns the table and the
  value the reference points at. \<open>dflt\<close> is the value-initialised \<^verbatim>\<open>ValueType\<close>.
\<close>

definition index_op ::
  "nat \<Rightarrow> ('k \<Rightarrow> nat) \<Rightarrow> 'v \<Rightarrow> ('k, 'v) HashMap \<Rightarrow> 'k \<Rightarrow>
   (error + (('k, 'v) HashMap \<times> 'v)) option" where
  "index_op fuel hasher dflt s key =
     (case find_hm hasher s key of
        Inl e \<Rightarrow> Some (Inl e)
      | Inr it \<Rightarrow>
          (case (if it = end_it s then insert_hm fuel hasher s (key, dflt) else Some (Inr s)) of
             None \<Rightarrow> None
           | Some (Inl e) \<Rightarrow> Some (Inl e)
           | Some (Inr s') \<Rightarrow>
               (case find_hm hasher s' key of
                  Inl e \<Rightarrow> Some (Inl e)
                | Inr it' \<Rightarrow>
                    (case deref (table_f s') it' of
                       Inl e \<Rightarrow> Some (Inl e)
                     | Inr p \<Rightarrow> Some (Inr (s', snd p))))))"

subsection \<open>Traversal\<close>

text \<open>\<^verbatim>\<open>for (auto it = begin(); it != end(); ++it)\<close>, collecting \<^verbatim>\<open>*it\<close>.\<close>

function traverse_from :: "'a option list \<Rightarrow> nat \<Rightarrow> error + 'a list" where
  "traverse_from t i =
     (if i = length t then Inr []
      else (case deref t i of
              Inl e \<Rightarrow> Inl e
            | Inr x \<Rightarrow>
                (case iter_next t i of
                   Inl e \<Rightarrow> Inl e
                 | Inr j \<Rightarrow>
                     (case traverse_from t j of
                        Inl e \<Rightarrow> Inl e
                      | Inr xs \<Rightarrow> Inr (x # xs)))))"
  by pat_completeness auto
termination
proof (relation "measure (\<lambda>(t, i). length t - i)", goal_cases)
  case 1
  show ?case by simp
next
  case (2 t i x j)
  have skip: "skip_empty t' k = Inr j' \<Longrightarrow> k \<le> j' \<and> j' \<le> length t'"
    for t' :: "'a option list" and k j'
  proof (induction t' k rule: skip_empty.induct)
    case (1 t' k)
    then show ?case
      by (subst (asm) (2) skip_empty.simps) (auto split: if_splits)
  qed
  from 2 have "i < length t" by (auto simp: deref_def split: if_splits)
  moreover from 2 skip [of t "i + 1" j] have "i < j" "j \<le> length t"
    by (auto simp: iter_next_def)
  ultimately show ?case by simp
qed

definition traverse :: "('k, 'v) HashMap \<Rightarrow> error + ('k \<times> 'v) list" where
  "traverse s =
     (case begin_it s of Inl e \<Rightarrow> Inl e | Inr i \<Rightarrow> traverse_from (table_f s) i)"

section \<open>Invariants, abstractions and examples\<close>

definition is_pow2 :: "nat \<Rightarrow> bool" where
  "is_pow2 c \<longleftrightarrow> (\<exists>j. c = 2 ^ j)"

definition wf :: "('k, 'v) HashMap \<Rightarrow> bool" where
  "wf s \<longleftrightarrow> is_pow2 (capacity_f s) \<and> length (table_f s) = capacity_f s \<and>
     length (from_f s) = capacity_f s"

definition key_at :: "('k, 'v) HashMap \<Rightarrow> nat \<Rightarrow> 'k \<Rightarrow> bool" where
  "key_at s i key = (case table_f s ! i of None \<Rightarrow> False | Some e \<Rightarrow> fst e = key)"

definition probe :: "('k \<Rightarrow> nat) \<Rightarrow> ('k, 'v) HashMap \<Rightarrow> 'k \<Rightarrow> nat \<Rightarrow> nat" where
  "probe hasher s key j = (hasher key + j) mod capacity_f s"

definition carried :: "'a option \<Rightarrow> 'a multiset" where
  "carried p = (case p of None \<Rightarrow> {#} | Some e \<Rightarrow> {#e#})"

definition live :: "'a option list \<Rightarrow> 'a list" where
  "live t = map the (filter (\<lambda>x. x \<noteq> None) t)"

definition disp_ok :: "('k \<Rightarrow> nat) \<Rightarrow> ('k, 'v) HashMap \<Rightarrow> bool" where
  "disp_ok hasher s \<longleftrightarrow>
     (\<forall>i < length (table_f s). \<forall>e. table_f s ! i = Some e \<longrightarrow>
        from_f s ! i < BLOCK_SIZE s \<and> (hasher (fst e) + from_f s ! i) mod capacity_f s = i)"

text \<open>
  A table is \<open>small\<close> when the counter of every occupied slot is below the capacity: the
  counter is then the least number of probe steps from the bucket to the slot. The
  table that a failed walk hands to \<open>Rebuild\<close> need not be small, the tables between
  two operations are.
\<close>

definition small :: "('k, 'v) HashMap \<Rightarrow> bool" where
  "small s \<longleftrightarrow>
     (\<forall>i < length (table_f s). table_f s ! i \<noteq> None \<longrightarrow> from_f s ! i < capacity_f s)"

definition safe_ins ::
  "(('k, 'v) HashMap \<Rightarrow> ('k \<times> 'v) \<Rightarrow> ('k, 'v) result) \<Rightarrow> bool" where
  "safe_ins ins \<longleftrightarrow> (\<forall>s e r. wf s \<longrightarrow> ins s e = Some r \<longrightarrow> (\<exists>s'. r = Inr s' \<and> wf s'))"

definition rebuild_start :: "('k, 'v) HashMap \<Rightarrow> nat \<Rightarrow> nat \<Rightarrow> ('k, 'v) HashMap" where
  "rebuild_start s c m =
     s\<lparr>capacity_f := c, table_f := replicate c None, from_f := resize (from_f s) c 0,
       BLOCK_SIZE := max DEFAULT_BLOCK_SIZE (2 * m), size_f := 0\<rparr>"

definition inv :: "('k \<Rightarrow> nat) \<Rightarrow> ('k, 'v) HashMap \<Rightarrow> bool" where
  "inv hasher s \<longleftrightarrow> wf s \<and> disp_ok hasher s \<and> size_f s = length (collect_values s) \<and>
     distinct (map fst (collect_values s)) \<and> DEFAULT_BLOCK_SIZE \<le> BLOCK_SIZE s"

definition cluster_max :: "('k \<Rightarrow> nat) \<Rightarrow> nat \<Rightarrow> ('k \<times> 'v) list \<Rightarrow> nat" where
  "cluster_max hasher c vs =
     Max ((\<lambda>b. length (filter (\<lambda>e. hasher (fst e) mod c = b) vs)) ` {..<c})"

definition rebuilt :: "('k \<Rightarrow> nat) \<Rightarrow> ('k \<times> 'v) list \<Rightarrow> ('k, 'v) HashMap \<Rightarrow> bool" where
  "rebuilt hasher vs s \<longleftrightarrow>
     grow_capacity (length vs) 1 = Some (capacity_f s) \<and>
     BLOCK_SIZE s = max DEFAULT_BLOCK_SIZE (2 * cluster_max hasher (capacity_f s) vs)"

definition tracked ::
  "('k \<Rightarrow> nat) \<Rightarrow> ('k, 'v) HashMap \<Rightarrow> ('k \<times> 'v) multiset \<Rightarrow> ('k, 'v) HashMap \<Rightarrow> bool" where
  "tracked hasher s M s' \<longleftrightarrow>
     (capacity_f s' = capacity_f s \<and> BLOCK_SIZE s' = BLOCK_SIZE s) \<or>
     (\<exists>vs. mset vs \<subseteq># M \<and> rebuilt hasher vs s')"

definition good_ins ::
  "('k \<Rightarrow> nat) \<Rightarrow> (('k, 'v) HashMap \<Rightarrow> ('k \<times> 'v) \<Rightarrow> ('k, 'v) result) \<Rightarrow> bool" where
  "good_ins hasher ins \<longleftrightarrow>
     (\<forall>s e r. inv hasher s \<longrightarrow> fst e \<notin> fst ` set (collect_values s) \<longrightarrow> ins s e = Some r \<longrightarrow>
        (\<exists>s'. r = Inr s' \<and> inv hasher s' \<and>
           mset (collect_values s') = add_mset e (mset (collect_values s)) \<and>
           tracked hasher s (add_mset e (mset (collect_values s))) s' \<and>
           (small s \<longrightarrow> small s')))"

text \<open>
  The specification reads the table as a map from keys to values: \<open>insert\<close> adds a
  binding unless the key has one (the first insertion wins), \<open>erase\<close> removes the
  binding, the index operator adds the default value for an absent key, and \<open>clear\<close>
  empties the map.
\<close>

definition spec_insert :: "('k \<rightharpoonup> 'v) \<Rightarrow> 'k \<Rightarrow> 'v \<Rightarrow> ('k \<rightharpoonup> 'v)" where
  "spec_insert m k v = (if k \<in> dom m then m else m(k \<mapsto> v))"

definition spec_erase :: "('k \<rightharpoonup> 'v) \<Rightarrow> 'k \<Rightarrow> ('k \<rightharpoonup> 'v)" where
  "spec_erase m k = m(k := None)"

text \<open>
  \<open>reach hasher dflt s m\<close>: the table \<open>s\<close> is the result of a sequence of public
  operations that all returned, starting from the constructor, and \<open>m\<close> is the map that
  the specification assigns to that sequence.
\<close>

inductive reach ::
  "('k \<Rightarrow> nat) \<Rightarrow> 'v \<Rightarrow> ('k, 'v) HashMap \<Rightarrow> ('k \<rightharpoonup> 'v) \<Rightarrow> bool"
  for hasher :: "'k \<Rightarrow> nat" and dflt :: 'v where
  reach_construct: "reach hasher dflt construct Map.empty"
| reach_insert: "reach hasher dflt s m \<Longrightarrow> insert_hm fuel hasher s (k, v) = Some (Inr s') \<Longrightarrow>
    reach hasher dflt s' (spec_insert m k v)"
| reach_erase: "reach hasher dflt s m \<Longrightarrow> erase hasher s k = Inr s' \<Longrightarrow>
    reach hasher dflt s' (spec_erase m k)"
| reach_index: "reach hasher dflt s m \<Longrightarrow> index_op fuel hasher dflt s k = Some (Inr (s', v)) \<Longrightarrow>
    reach hasher dflt s' (spec_insert m k dflt)"
| reach_clear: "reach hasher dflt s m \<Longrightarrow> clear s = Inr s' \<Longrightarrow> reach hasher dflt s' Map.empty"

definition abstracts :: "('k, 'v) HashMap \<Rightarrow> ('k \<rightharpoonup> 'v) \<Rightarrow> bool" where
  "abstracts s m \<longleftrightarrow> (\<forall>k v. m k = Some v \<longleftrightarrow> (k, v) \<in> set (collect_values s))"

definition tab1 :: "(nat, string) HashMap" where
  "tab1 = \<lparr>size_f = 1, capacity_f = 1, table_f = [Some (1, ''a'')], from_f = [0],
     BLOCK_SIZE = 64\<rparr>"

definition tab2 :: "(nat, string) HashMap" where
  "tab2 = \<lparr>size_f = 2, capacity_f = 8,
     table_f = [None, Some (1, ''a''), Some (2, ''b''), None, None, None, None, None],
     from_f = [63, 0, 0, 0, 0, 0, 0, 0], BLOCK_SIZE = 64\<rparr>"

definition gap_table :: "(nat, string) HashMap" where
  "gap_table = \<lparr>size_f = 1, capacity_f = 8,
     table_f = [None, None, Some (8, ''x''), None, None, None, None, None],
     from_f = [0, 0, 2, 0, 0, 0, 0, 0], BLOCK_SIZE = 64\<rparr>"

definition spec_A :: "nat \<rightharpoonup> string" where
  "spec_A = spec_insert (spec_insert (spec_insert Map.empty 1 ''a'') 2 ''b'') 1 ''z''"

definition hash_mod3 :: "nat \<Rightarrow> nat" where
  "hash_mod3 k = k mod 3"

definition keys66 :: "(nat \<times> unit) list" where
  "keys66 = map (\<lambda>k. (k, ())) [0..<66]"

definition keys67 :: "(nat \<times> unit) list" where
  "keys67 = map (\<lambda>k. (k, ())) [0..<67]"

definition nested_keys :: "nat list" where
  "nested_keys =
    [0, 1024, 2048, 3072, 4096, 5120, 6144, 7168, 8192, 9216, 10240, 11264, 12288, 13312,
     14336, 15360, 16384, 17408, 18432, 19456, 20480, 21504, 22528, 512, 1536, 2560, 3584,
     4608, 5632, 6656, 7680, 8704, 9728, 10752, 11776, 12800, 13824, 14848, 15872, 16896,
     17920, 18944, 19968, 200, 201, 202, 203, 204, 205, 206, 207, 208, 209, 210, 211, 212,
     213, 214, 1, 1025, 2049, 3073, 4097, 5121, 6145, 7169, 8193, 9217, 10241, 11265,
     12289, 13313, 14337, 15361, 16385, 17409, 18433, 19457, 20481, 21505, 2, 1026, 2050,
     3074, 4098, 5122, 6146, 7170, 8194, 9218, 10242, 11266, 12290, 13314, 14338, 15362,
     16386, 17410, 18434, 19458, 20482, 21506, 20992]"

definition nested_entries :: "(nat \<times> unit) list" where
  "nested_entries = map (\<lambda>k. (k, ())) nested_keys"

definition residues :: "nat list" where
  "residues = [0, 1, 2, 512, 200, 201, 202, 203, 204, 205, 206, 207, 208, 209, 210, 211, 212,
     213, 214]"

section \<open>Verification\<close>

declare FindPosition_loop.simps [simp del]
declare insert_walk.simps [simp del]
declare skip_empty.simps [simp del]
declare grow_capacity.simps [simp del]
declare traverse_from.simps [simp del]

lemma is_pow2_pos: "is_pow2 c \<Longrightarrow> 0 < c"
  by (auto simp: is_pow2_def)

lemma pow2_mask: "is_pow2 c \<Longrightarrow> x AND size_t_dec c = x mod c"
proof -
  assume "is_pow2 c"
  then obtain j where c: "c = 2 ^ j" by (auto simp: is_pow2_def)
  have "size_t_dec c = mask j" by (simp add: size_t_dec_def c mask_eq_exp_minus_1)
  then show ?thesis by (simp add: c take_bit_eq_mod flip: take_bit_eq_mask)
qed

lemma wf_pos: "wf s \<Longrightarrow> 0 < capacity_f s"
  by (simp add: wf_def is_pow2_pos)

lemma GetBucket_mod: "wf s \<Longrightarrow> GetBucket hasher s key = hasher key mod capacity_f s"
  by (simp add: GetBucket_def wf_def pow2_mask)

lemma GetNext_mod: "wf s \<Longrightarrow> GetNext s h = (h + 1) mod capacity_f s"
  by (simp add: GetNext_def wf_def pow2_mask)

lemma GetBucket_less: "wf s \<Longrightarrow> GetBucket hasher s key < capacity_f s"
  by (simp add: GetBucket_mod wf_pos)

lemma GetNext_less: "wf s \<Longrightarrow> GetNext s h < capacity_f s"
  by (simp add: GetNext_mod wf_pos)

lemma FindPosition_loop_miss:
  assumes "wf s"
  shows "h < capacity_f s \<Longrightarrow> \<forall>j < BLOCK_SIZE s - it. \<not> key_at s ((h + j) mod capacity_f s) key \<Longrightarrow>
    FindPosition_loop s key it h = Inr (capacity_f s)"
proof (induction "BLOCK_SIZE s - it" arbitrary: it h)
  case 0
  then show ?case by (subst FindPosition_loop.simps) simp
next
  case (Suc n)
  from Suc.hyps(2) have it: "it < BLOCK_SIZE s" and n: "n = BLOCK_SIZE s - (it + 1)" by auto
  from Suc.prems(2) [rule_format, of 0] Suc.hyps(2) Suc.prems(1)
  have no: "\<not> key_at s h key" by simp
  have rest: "\<forall>j < BLOCK_SIZE s - (it + 1). \<not> key_at s ((GetNext s h + j) mod capacity_f s) key"
  proof (intro allI impI)
    fix j assume "j < BLOCK_SIZE s - (it + 1)"
    then have "Suc j < BLOCK_SIZE s - it" by simp
    from Suc.prems(2) [rule_format, OF this]
    show "\<not> key_at s ((GetNext s h + j) mod capacity_f s) key"
      by (simp add: GetNext_mod [OF assms] mod_add_left_eq)
  qed
  have "FindPosition_loop s key (it + 1) (GetNext s h) = Inr (capacity_f s)"
    by (rule Suc.hyps(1) [OF n GetNext_less [OF assms] rest])
  with it no Suc.prems(1) assms show ?case
    by (subst FindPosition_loop.simps) (auto simp: key_at_def wf_def split: option.splits)
qed

lemma FindPosition_loop_hit:
  assumes "wf s"
  shows "h < capacity_f s \<Longrightarrow> j < BLOCK_SIZE s - it \<Longrightarrow> key_at s ((h + j) mod capacity_f s) key \<Longrightarrow>
    \<forall>j' < j. \<not> key_at s ((h + j') mod capacity_f s) key \<Longrightarrow>
    FindPosition_loop s key it h = Inr ((h + j) mod capacity_f s)"
proof (induction j arbitrary: it h)
  case 0
  then show ?case using assms
    by (subst FindPosition_loop.simps) (auto simp: key_at_def wf_def split: option.splits)
next
  case (Suc j)
  from Suc.prems(4) [rule_format, of 0] Suc.prems(1)
  have no: "\<not> key_at s h key" by simp
  have it: "it < BLOCK_SIZE s" and j: "j < BLOCK_SIZE s - (it + 1)" using Suc.prems(2) by auto
  have hit: "key_at s ((GetNext s h + j) mod capacity_f s) key"
    using Suc.prems(3) by (simp add: GetNext_mod [OF assms] mod_add_left_eq)
  have rest: "\<forall>j' < j. \<not> key_at s ((GetNext s h + j') mod capacity_f s) key"
  proof (intro allI impI)
    fix j' assume "j' < j"
    then have "Suc j' < Suc j" by simp
    from Suc.prems(4) [rule_format, OF this]
    show "\<not> key_at s ((GetNext s h + j') mod capacity_f s) key"
      by (simp add: GetNext_mod [OF assms] mod_add_left_eq)
  qed
  have "FindPosition_loop s key (it + 1) (GetNext s h) = Inr ((GetNext s h + j) mod capacity_f s)"
    by (rule Suc.IH [OF GetNext_less [OF assms] j hit rest])
  then have "FindPosition_loop s key (it + 1) (GetNext s h) = Inr ((h + Suc j) mod capacity_f s)"
    by (simp add: GetNext_mod [OF assms] mod_add_left_eq)
  with it no Suc.prems(1) assms show ?case
    by (subst FindPosition_loop.simps) (auto simp: key_at_def wf_def split: option.splits)
qed

lemma FindPosition_hit:
  assumes "wf s" "j < BLOCK_SIZE s" "key_at s (probe hasher s key j) key"
    "\<forall>j' < j. \<not> key_at s (probe hasher s key j') key"
  shows "FindPosition hasher s key = Inr (probe hasher s key j)"
  using FindPosition_loop_hit [OF assms(1) GetBucket_less [OF assms(1)], of j 0 hasher key key] assms
  by (simp add: FindPosition_def probe_def GetBucket_mod mod_add_left_eq)

lemma FindPosition_miss:
  assumes "wf s" "\<forall>j < BLOCK_SIZE s. \<not> key_at s (probe hasher s key j) key"
  shows "FindPosition hasher s key = Inr (capacity_f s)"
  using FindPosition_loop_miss [OF assms(1) GetBucket_less [OF assms(1)], of 0 hasher key key] assms
  by (simp add: FindPosition_def probe_def GetBucket_mod mod_add_left_eq)

lemma probe_less: "wf s \<Longrightarrow> probe hasher s key j < capacity_f s"
  by (simp add: probe_def wf_pos)

text \<open>Either the first match of the window, or the capacity.\<close>

lemma FindPosition_cases:
  assumes "wf s"
  obtains (hit) j where "j < BLOCK_SIZE s" "key_at s (probe hasher s key j) key"
      "\<forall>j' < j. \<not> key_at s (probe hasher s key j') key"
      "FindPosition hasher s key = Inr (probe hasher s key j)"
  | (miss) "\<forall>j < BLOCK_SIZE s. \<not> key_at s (probe hasher s key j) key"
      "FindPosition hasher s key = Inr (capacity_f s)"
proof (cases "\<exists>j < BLOCK_SIZE s. key_at s (probe hasher s key j) key")
  case True
  define j where "j = (LEAST j. j < BLOCK_SIZE s \<and> key_at s (probe hasher s key j) key)"
  from True obtain j0 where "j0 < BLOCK_SIZE s \<and> key_at s (probe hasher s key j0) key"
    by blast
  then have 1: "j < BLOCK_SIZE s \<and> key_at s (probe hasher s key j) key"
    unfolding j_def by (rule LeastI)
  have 2: "\<forall>j' < j. \<not> key_at s (probe hasher s key j') key"
  proof (intro allI impI notI)
    fix j' assume "j' < j" "key_at s (probe hasher s key j') key"
    with 1 have "j' < BLOCK_SIZE s \<and> key_at s (probe hasher s key j') key" by simp
    then have "j \<le> j'" unfolding j_def by (rule Least_le)
    with \<open>j' < j\<close> show False by simp
  qed
  from 1 2 FindPosition_hit [OF assms, of j hasher key] hit show ?thesis by blast
next
  case False
  then have "\<forall>j < BLOCK_SIZE s. \<not> key_at s (probe hasher s key j) key" by blast
  with FindPosition_miss [OF assms this] miss show ?thesis by blast
qed

subsection \<open>The walk\<close>

lemma wf_update [simp]:
  "wf (s\<lparr>table_f := (table_f s)[i := x], from_f := (from_f s)[i := d]\<rparr>) = wf s"
  by (simp add: wf_def)

lemma insert_walk_wf:
  "wf s \<Longrightarrow> h2 < capacity_f s \<Longrightarrow>
   \<exists>s' p. insert_walk s h2 diff ptr = Inr (s', p) \<and> wf s' \<and> capacity_f s' = capacity_f s \<and>
     BLOCK_SIZE s' = BLOCK_SIZE s \<and> size_f s' = size_f s"
proof (induction s h2 diff ptr rule: insert_walk.induct)
  case (1 s h2 diff ptr)
  show ?case
  proof (cases "diff < BLOCK_SIZE s \<and> ptr \<noteq> None")
    case False
    with "1.prems" show ?thesis by (subst insert_walk.simps) auto
  next
    case True
    from "1.prems" have inb: "h2 < length (table_f s) \<and> h2 < length (from_f s)"
      by (simp add: wf_def)
    have nx: "GetNext s h2 < capacity_f s" by (rule GetNext_less [OF "1.prems"(1)])
    show ?thesis
    proof (cases "table_f s ! h2 = None \<or> from_f s ! h2 < diff")
      case swap: True
      from "1.IH"(1) [OF True inb swap] "1.prems" nx
      show ?thesis using True inb swap by (subst insert_walk.simps) auto
    next
      case keep: False
      from "1.IH"(2) [OF True inb keep] "1.prems" nx
      show ?thesis using True inb keep by (subst insert_walk.simps) auto
    qed
  qed
qed

lemma collect_values_live: "collect_values s = live (table_f s)"
  by (simp add: collect_values_def live_def)

lemma mset_live_update:
  "i < length t \<Longrightarrow> mset (live (t[i := y])) + carried (t ! i) = mset (live t) + carried y"
proof (induction t arbitrary: i)
  case Nil
  then show ?case by simp
next
  case (Cons x xs)
  show ?case
  proof (cases i)
    case 0
    then show ?thesis by (auto simp: live_def carried_def split: option.splits)
  next
    case (Suc k)
    with Cons.prems have "k < length xs" by simp
    from Cons.IH [OF this] Suc show ?thesis
      by (auto simp: live_def carried_def split: option.splits)
  qed
qed

lemma disp_okD:
  "disp_ok hasher s \<Longrightarrow> i < length (table_f s) \<Longrightarrow> table_f s ! i = Some e \<Longrightarrow>
   from_f s ! i < BLOCK_SIZE s \<and> (hasher (fst e) + from_f s ! i) mod capacity_f s = i"
  unfolding disp_ok_def by blast

lemma insert_walk_inv:
  "wf s \<Longrightarrow> disp_ok hasher s \<Longrightarrow> h2 < capacity_f s \<Longrightarrow>
   (\<forall>e. ptr = Some e \<longrightarrow> (hasher (fst e) + diff) mod capacity_f s = h2) \<Longrightarrow>
   insert_walk s h2 diff ptr = Inr (s', p) \<Longrightarrow>
   disp_ok hasher s' \<and>
   mset (collect_values s') + carried p = mset (collect_values s) + carried ptr"
proof (induction s h2 diff ptr rule: insert_walk.induct)
  case (1 s h2 diff ptr)
  show ?case
  proof (cases "diff < BLOCK_SIZE s \<and> ptr \<noteq> None")
    case False
    with "1.prems"(5) have "s' = s" "p = ptr"
      by (subst (asm) insert_walk.simps; auto)+
    with "1.prems" show ?thesis by simp
  next
    case True
    from "1.prems" have inb: "h2 < length (table_f s) \<and> h2 < length (from_f s)"
      by (simp add: wf_def)
    have len: "length (table_f s) = capacity_f s" "length (from_f s) = capacity_f s"
      using "1.prems"(1) by (simp_all add: wf_def)
    have nx: "GetNext s h2 < capacity_f s" by (rule GetNext_less [OF "1.prems"(1)])
    have nxm: "GetNext s h2 = (h2 + 1) mod capacity_f s" by (rule GetNext_mod [OF "1.prems"(1)])
    show ?thesis
    proof (cases "table_f s ! h2 = None \<or> from_f s ! h2 < diff")
      case swap: True
      let ?s = "s\<lparr>table_f := (table_f s)[h2 := ptr], from_f := (from_f s)[h2 := diff]\<rparr>"
      from True obtain e0 where e0: "ptr = Some e0" by auto
      have w: "wf ?s" using "1.prems"(1) by simp
      have d: "disp_ok hasher ?s"
        unfolding disp_ok_def
      proof (intro allI impI)
        fix i e assume i: "i < length (table_f ?s)" and e: "table_f ?s ! i = Some e"
        show "from_f ?s ! i < BLOCK_SIZE ?s \<and> (hasher (fst e) + from_f ?s ! i) mod capacity_f ?s = i"
        proof (cases "i = h2")
          case True
          with i e e0 inb have "e = e0" by simp
          with \<open>i = h2\<close> inb "1.prems"(4) e0 \<open>diff < BLOCK_SIZE s \<and> ptr \<noteq> None\<close>
          show ?thesis by simp
        next
          case False
          with i e have "i < length (table_f s)" "table_f s ! i = Some e" by simp_all
          from disp_okD [OF "1.prems"(2) this] False
          show ?thesis by simp
        qed
      qed
      have c: "\<forall>e. table_f s ! h2 = Some e \<longrightarrow>
          (hasher (fst e) + (from_f s ! h2 + 1)) mod capacity_f ?s = GetNext s h2"
      proof (intro allI impI)
        fix e assume "table_f s ! h2 = Some e"
        with disp_okD [OF "1.prems"(2), of h2 e] inb
        have "(hasher (fst e) + from_f s ! h2) mod capacity_f s = h2"
          by simp
        then have "(hasher (fst e) + from_f s ! h2 + 1) mod capacity_f s = (h2 + 1) mod capacity_f s"
          by (metis mod_add_left_eq)
        then show "(hasher (fst e) + (from_f s ! h2 + 1)) mod capacity_f ?s = GetNext s h2"
          by (simp add: nxm add.assoc)
      qed
      have run: "insert_walk ?s (GetNext s h2) (from_f s ! h2 + 1) (table_f s ! h2) = Inr (s', p)"
        using "1.prems"(5) True inb swap by (subst (asm) insert_walk.simps) simp
      from "1.IH"(1) [OF True inb swap w d _ c run] nx
      have r: "disp_ok hasher s'"
        "mset (collect_values s') + carried p = mset (collect_values ?s) + carried (table_f s ! h2)"
        by simp_all
      from mset_live_update [of h2 "table_f s" ptr] inb
      have "mset (collect_values ?s) + carried (table_f s ! h2) = mset (collect_values s) + carried ptr"
        by (simp add: collect_values_live)
      with r show ?thesis by simp
    next
      case keep: False
      have c: "\<forall>e. ptr = Some e \<longrightarrow> (hasher (fst e) + (diff + 1)) mod capacity_f s = GetNext s h2"
      proof (intro allI impI)
        fix e assume "ptr = Some e"
        with "1.prems"(4) have "(hasher (fst e) + diff) mod capacity_f s = h2" by simp
        then have "(hasher (fst e) + diff + 1) mod capacity_f s = (h2 + 1) mod capacity_f s"
          by (metis mod_add_left_eq)
        then show "(hasher (fst e) + (diff + 1)) mod capacity_f s = GetNext s h2"
          by (simp add: nxm add.assoc)
      qed
      have run: "insert_walk s (GetNext s h2) (diff + 1) ptr = Inr (s', p)"
        using "1.prems"(5) True inb keep by (subst (asm) insert_walk.simps) simp
      from "1.IH"(2) [OF True inb keep "1.prems"(1,2) nx c run] show ?thesis .
    qed
  qed
qed

lemma insert_walk_full:
  "wf s \<Longrightarrow> h2 < capacity_f s \<Longrightarrow> \<forall>i < capacity_f s. table_f s ! i \<noteq> None \<Longrightarrow> ptr \<noteq> None \<Longrightarrow>
   insert_walk s h2 diff ptr = Inr (s', p) \<Longrightarrow> p \<noteq> None"
proof (induction s h2 diff ptr rule: insert_walk.induct)
  case (1 s h2 diff ptr)
  show ?case
  proof (cases "diff < BLOCK_SIZE s \<and> ptr \<noteq> None")
    case False
    with "1.prems"(5) have "p = ptr" by (subst (asm) insert_walk.simps) auto
    with "1.prems"(4) show ?thesis by simp
  next
    case True
    from "1.prems" have inb: "h2 < length (table_f s) \<and> h2 < length (from_f s)"
      by (simp add: wf_def)
    have nx: "GetNext s h2 < capacity_f s" by (rule GetNext_less [OF "1.prems"(1)])
    from "1.prems"(2,3) have occ: "table_f s ! h2 \<noteq> None" by simp
    show ?thesis
    proof (cases "table_f s ! h2 = None \<or> from_f s ! h2 < diff")
      case swap: True
      let ?s = "s\<lparr>table_f := (table_f s)[h2 := ptr], from_f := (from_f s)[h2 := diff]\<rparr>"
      have w: "wf ?s" using "1.prems"(1) by simp
      have full: "\<forall>i < capacity_f ?s. table_f ?s ! i \<noteq> None"
      proof (intro allI impI)
        fix i assume "i < capacity_f ?s"
        with "1.prems"(3,4) inb show "table_f ?s ! i \<noteq> None"
          by (cases "i = h2") simp_all
      qed
      have run: "insert_walk ?s (GetNext s h2) (from_f s ! h2 + 1) (table_f s ! h2) = Inr (s', p)"
        using "1.prems"(5) True inb swap by (subst (asm) insert_walk.simps) simp
      from "1.IH"(1) [OF True inb swap w _ full occ run] nx show ?thesis by simp
    next
      case keep: False
      have run: "insert_walk s (GetNext s h2) (diff + 1) ptr = Inr (s', p)"
        using "1.prems"(5) True inb keep by (subst (asm) insert_walk.simps) simp
      from "1.IH"(2) [OF True inb keep "1.prems"(1) nx "1.prems"(3,4) run] show ?thesis .
    qed
  qed
qed

lemma visited_full:
  assumes "b < c" "c \<le> t" "\<forall>k < t. P ((b + k) mod c)" "i < (c::nat)"
  shows "P i"
proof -
  let ?k = "(i + c - b) mod c"
  from assms(4) have "?k < c" by simp
  with assms(2) have "?k < t" by simp
  with assms(3) have "P ((b + ?k) mod c)" by blast
  moreover have "(b + ?k) mod c = i"
  proof -
    have "(b + ?k) mod c = (b + (i + c - b)) mod c" by (simp add: mod_add_right_eq)
    also from assms(1) have "b + (i + c - b) = i + c" by simp
    also from assms(4) have "(i + c) mod c = i" by simp
    finally show ?thesis .
  qed
  ultimately show ?thesis by simp
qed

lemma insert_walk_small:
  "wf s \<Longrightarrow> b < capacity_f s \<Longrightarrow> h2 = (b + t) mod capacity_f s \<Longrightarrow>
   \<forall>k < t. table_f s ! ((b + k) mod capacity_f s) \<noteq> None \<Longrightarrow> small s \<Longrightarrow>
   (ptr \<noteq> None \<longrightarrow> diff \<le> t) \<Longrightarrow> insert_walk s h2 diff ptr = Inr (s', None) \<Longrightarrow> small s'"
proof (induction s h2 diff ptr arbitrary: t rule: insert_walk.induct)
  case (1 s h2 diff ptr)
  show ?case
  proof (cases "diff < BLOCK_SIZE s \<and> ptr \<noteq> None")
    case False
    with "1.prems"(7) have "s' = s" by (subst (asm) insert_walk.simps) auto
    with "1.prems"(5) show ?thesis by simp
  next
    case True
    have len: "length (table_f s) = capacity_f s" "length (from_f s) = capacity_f s"
      using "1.prems"(1) by (simp_all add: wf_def)
    have pos: "0 < capacity_f s" by (rule wf_pos [OF "1.prems"(1)])
    from "1.prems"(3) pos have h2: "h2 < capacity_f s" by simp
    with len have inb: "h2 < length (table_f s) \<and> h2 < length (from_f s)" by simp
    have nxm: "GetNext s h2 = (b + (t + 1)) mod capacity_f s"
      using "1.prems"(3) by (simp add: GetNext_mod [OF "1.prems"(1)] mod_Suc_eq)
    from True "1.prems"(6) have dt: "diff \<le> t" by simp
    show ?thesis
    proof (cases "table_f s ! h2 = None \<or> from_f s ! h2 < diff")
      case swap: True
      let ?s = "s\<lparr>table_f := (table_f s)[h2 := ptr], from_f := (from_f s)[h2 := diff]\<rparr>"
      have w: "wf ?s" using "1.prems"(1) by simp
      have run: "insert_walk ?s (GetNext s h2) (from_f s ! h2 + 1) (table_f s ! h2) = Inr (s', None)"
        using "1.prems"(7) True inb swap by (subst (asm) insert_walk.simps) simp
      have tc: "t < capacity_f s"
      proof (rule ccontr)
        assume "\<not> t < capacity_f s"
        then have ct: "capacity_f s \<le> t" by simp
        have full: "\<forall>i < capacity_f s. table_f s ! i \<noteq> None"
        proof (intro allI impI)
          fix i assume "i < capacity_f s"
          from visited_full [OF "1.prems"(2) ct "1.prems"(4) this]
          show "table_f s ! i \<noteq> None" .
        qed
        with h2 have occ: "table_f s ! h2 \<noteq> None" by simp
        have full': "\<forall>i < capacity_f ?s. table_f ?s ! i \<noteq> None"
        proof (intro allI impI)
          fix i assume "i < capacity_f ?s"
          with full True inb show "table_f ?s ! i \<noteq> None"
            by (cases "i = h2") simp_all
        qed
        from insert_walk_full [OF w _ full' occ run] GetNext_less [OF "1.prems"(1), of h2]
        show False by simp
      qed
      have sm: "small ?s"
        unfolding small_def
      proof (intro allI impI)
        fix i assume i: "i < length (table_f ?s)" and o: "table_f ?s ! i \<noteq> None"
        show "from_f ?s ! i < capacity_f ?s"
        proof (cases "i = h2")
          case True
          with inb dt tc show ?thesis by simp
        next
          case False
          with i o "1.prems"(5) show ?thesis by (simp add: small_def)
        qed
      qed
      have vis: "\<forall>k < t + 1. table_f ?s ! ((b + k) mod capacity_f ?s) \<noteq> None"
      proof (intro allI impI)
        fix k assume k: "k < t + 1"
        show "table_f ?s ! ((b + k) mod capacity_f ?s) \<noteq> None"
        proof (cases "(b + k) mod capacity_f s = h2")
          case True
          with inb \<open>diff < BLOCK_SIZE s \<and> ptr \<noteq> None\<close> show ?thesis by simp
        next
          case False
          with k "1.prems"(3) have "k < t" by (cases "k = t") simp_all
          with "1.prems"(4) False show ?thesis by simp
        qed
      qed
      have car: "table_f s ! h2 \<noteq> None \<longrightarrow> from_f s ! h2 + 1 \<le> t + 1"
        using swap dt by auto
      have nx: "GetNext s h2 = (b + (t + 1)) mod capacity_f ?s" using nxm by simp
      have b': "b < capacity_f ?s" using "1.prems"(2) by simp
      from "1.IH"(1) [OF True inb swap w b' nx vis sm car run] show ?thesis .
    next
      case keep: False
      have run: "insert_walk s (GetNext s h2) (diff + 1) ptr = Inr (s', None)"
        using "1.prems"(7) True inb keep by (subst (asm) insert_walk.simps) simp
      have vis: "\<forall>k < t + 1. table_f s ! ((b + k) mod capacity_f s) \<noteq> None"
      proof (intro allI impI)
        fix k assume k: "k < t + 1"
        show "table_f s ! ((b + k) mod capacity_f s) \<noteq> None"
        proof (cases "k = t")
          case True
          with keep "1.prems"(3) show ?thesis by simp
        next
          case False
          with k have "k < t" by simp
          with "1.prems"(4) show ?thesis by simp
        qed
      qed
      have car: "ptr \<noteq> None \<longrightarrow> diff + 1 \<le> t + 1" using dt by simp
      from "1.IH"(2) [OF True inb keep "1.prems"(1,2) nxm vis "1.prems"(5) car run]
      show ?thesis .
    qed
  qed
qed

subsection \<open>The pieces of Rebuild\<close>

lemma is_pow2_1 [simp]: "is_pow2 1"
  by (auto simp: is_pow2_def intro: exI [of _ 0])

lemma is_pow2_double: "is_pow2 c \<Longrightarrow> is_pow2 (c * 2)"
  unfolding is_pow2_def
proof -
  assume "\<exists>j. c = 2 ^ j"
  then obtain j where "c = 2 ^ j" ..
  then have "c * 2 = 2 ^ Suc j" by simp
  then show "\<exists>j. c * 2 = 2 ^ j" ..
qed

lemma grow_capacity_spec:
  "is_pow2 c0 \<Longrightarrow>
   \<exists>c. grow_capacity sz c0 = Some c \<and> is_pow2 c \<and> sz * 5 \<le> c \<and> c0 \<le> c \<and> (c = c0 \<or> c < sz * 10)"
proof (induction sz c0 rule: grow_capacity.induct)
  case (1 sz c)
  show ?case
  proof (cases "sz * STANDARD_DIFF > c")
    case False
    with "1.prems" show ?thesis
      by (subst grow_capacity.simps) (simp add: STANDARD_DIFF_def)
  next
    case True
    from "1.prems" have pos: "c \<noteq> 0" using is_pow2_pos by blast
    from "1.IH" [OF True pos is_pow2_double [OF "1.prems"]]
    obtain c' where c': "grow_capacity sz (c * 2) = Some c'" "is_pow2 c'" "sz * 5 \<le> c'"
      "c * 2 \<le> c'" "c' = c * 2 \<or> c' < sz * 10" by blast
    from True c'(5) have "c' < sz * 10" by (auto simp: STANDARD_DIFF_def)
    with c' True pos show ?thesis
      by (subst grow_capacity.simps) simp
  qed
qed

lemma count_buckets_spec:
  "wf s \<Longrightarrow> length cnt = capacity_f s \<Longrightarrow>
   \<exists>cnt'. count_buckets hasher s vs cnt = Inr cnt' \<and> length cnt' = capacity_f s \<and>
     (\<forall>b < capacity_f s. cnt' ! b =
        cnt ! b + length (filter (\<lambda>e. hasher (fst e) mod capacity_f s = b) vs))"
proof (induction vs arbitrary: cnt)
  case Nil
  then show ?case by simp
next
  case (Cons v vs)
  let ?b = "GetBucket hasher s (fst v)"
  have b: "?b < length cnt" "?b = hasher (fst v) mod capacity_f s"
    using Cons.prems GetBucket_less [OF Cons.prems(1)] GetBucket_mod [OF Cons.prems(1)] by simp_all
  from Cons.IH [OF Cons.prems(1), of "cnt[?b := cnt ! ?b + 1]"] Cons.prems(2)
  obtain cnt' where cnt': "count_buckets hasher s vs (cnt[?b := cnt ! ?b + 1]) = Inr cnt'"
    "length cnt' = capacity_f s"
    "\<forall>b < capacity_f s. cnt' ! b = (cnt[?b := cnt ! ?b + 1]) ! b +
        length (filter (\<lambda>e. hasher (fst e) mod capacity_f s = b) vs)"
    by auto
  have "\<forall>b < capacity_f s. cnt' ! b =
      cnt ! b + length (filter (\<lambda>e. hasher (fst e) mod capacity_f s = b) (v # vs))"
  proof (intro allI impI)
    fix b' assume "b' < capacity_f s"
    with cnt'(3) b Cons.prems(2)
    show "cnt' ! b' = cnt ! b' + length (filter (\<lambda>e. hasher (fst e) mod capacity_f s = b') (v # vs))"
      by (cases "b' = ?b") auto
  qed
  with cnt' b show ?case by (simp add: Let_def)
qed

lemma max_element_spec: "cnt \<noteq> [] \<Longrightarrow> max_element cnt = Inr (Max (set cnt))"
  by (cases cnt) (simp_all add: max_element_def flip: Max.set_eq_fold)

lemma length_resize [simp]: "length (resize xs n d) = n"
  by (simp add: resize_def)

subsection \<open>No operation reads outside the vectors\<close>

lemma FindPosition_wf: "wf s \<Longrightarrow> \<exists>p. FindPosition hasher s key = Inr p \<and> p \<le> capacity_f s"
  by (rule FindPosition_cases [of s hasher key]) (auto simp: probe_less less_imp_le)

lemma find_hm_wf: "wf s \<Longrightarrow> \<exists>p. find_hm hasher s key = Inr p \<and> p \<le> capacity_f s"
  using FindPosition_wf [of s hasher key] by (auto simp: find_hm_def wf_def)

lemma insert_with_safe:
  assumes "safe_ins loop"
  shows "safe_ins (insert_with loop hasher)"
  unfolding safe_ins_def
proof (intro allI impI)
  fix s :: "('a, 'b) HashMap" and e r
  assume w: "wf s" and r: "insert_with loop hasher s e = Some r"
  from find_hm_wf [OF w, of hasher "fst e"]
  obtain p where p: "find_hm hasher s (fst e) = Inr p" by blast
  show "\<exists>s'. r = Inr s' \<and> wf s'"
  proof (cases "p \<noteq> end_it s")
    case True
    with p r w show ?thesis by (auto simp: insert_with_def)
  next
    case False
    with p r have "loop s e = Some r" by (simp add: insert_with_def)
    with assms w show ?thesis unfolding safe_ins_def by blast
  qed
qed

lemma insert_all_safe:
  "safe_ins ins \<Longrightarrow> wf s \<Longrightarrow> insert_all ins s vs = Some r \<Longrightarrow> \<exists>s'. r = Inr s' \<and> wf s'"
proof (induction vs arbitrary: s)
  case Nil
  then show ?case by auto
next
  case (Cons v vs)
  show ?case
  proof (cases "ins s v")
    case None
    with Cons.prems show ?thesis by simp
  next
    case (Some r1)
    with Cons.prems(1,2) obtain s1 where s1: "r1 = Inr s1" "wf s1"
      unfolding safe_ins_def by blast
    with Some Cons.prems(3) have "insert_all ins s1 vs = Some r" by simp
    from Cons.IH [OF Cons.prems(1) s1(2) this] show ?thesis .
  qed
qed

lemma resize_moved: "resize (map (\<lambda>x. None) t) c None = replicate c None"
proof -
  have "resize (map (\<lambda>x. None) t) c None =
      replicate (min c (length t)) None @ replicate (c - length t) None"
    by (simp add: resize_def map_replicate_const min.commute)
  also have "\<dots> = replicate (min c (length t) + (c - length t)) None"
    by (simp only: replicate_add)
  also have "min c (length t) + (c - length t) = c" by simp
  finally show ?thesis .
qed

lemma wf_rebuild_start: "is_pow2 c \<Longrightarrow> wf (rebuild_start s c m)"
  by (simp add: wf_def rebuild_start_def)

lemma Rebuild_with_unfold:
  "\<exists>c cnt. grow_capacity (size_f s) 1 = Some c \<and> is_pow2 c \<and> size_f s * 5 \<le> c \<and>
     (c = 1 \<or> c < size_f s * 10) \<and> length cnt = c \<and>
     (\<forall>b < c. cnt ! b = length (filter (\<lambda>e. hasher (fst e) mod c = b) (collect_values s))) \<and>
     Rebuild_with ins hasher s =
       insert_all ins (rebuild_start s c (Max (set cnt))) (collect_values s)"
proof -
  from grow_capacity_spec [OF is_pow2_1, of "size_f s"]
  obtain c where c: "grow_capacity (size_f s) 1 = Some c" "is_pow2 c" "size_f s * 5 \<le> c"
    "c = 1 \<or> c < size_f s * 10" by blast
  define s1 where "s1 = s\<lparr>capacity_f := c,
    table_f := resize (map (\<lambda>it_elem. None) (table_f s)) c None,
    from_f := resize (from_f s) c 0\<rparr>"
  have w1: "wf s1" using c(2) by (simp add: wf_def s1_def)
  have c1: "capacity_f s1 = c" by (simp add: s1_def)
  from count_buckets_spec [OF w1, of "replicate c 0" hasher "collect_values s"] c1
  obtain cnt where cnt: "count_buckets hasher s1 (collect_values s) (replicate c 0) = Inr cnt"
    "length cnt = c"
    "\<forall>b < c. cnt ! b = length (filter (\<lambda>e. hasher (fst e) mod c = b) (collect_values s))"
    by auto
  from cnt(2) is_pow2_pos [OF c(2)] have "cnt \<noteq> []" by auto
  then have m: "max_element cnt = Inr (Max (set cnt))" by (rule max_element_spec)
  have cnt1: "count_buckets hasher
      (s\<lparr>capacity_f := c, table_f := replicate c None, from_f := resize (from_f s) c 0\<rparr>)
      (collect_values s) (replicate c 0) = Inr cnt"
    using cnt(1) by (simp add: s1_def resize_moved)
  have "Rebuild_with ins hasher s =
      insert_all ins (rebuild_start s c (Max (set cnt))) (collect_values s)"
    using c(1) by (simp add: Rebuild_with_def Let_def resize_moved cnt1 m rebuild_start_def)
  with c cnt show ?thesis by blast
qed

lemma Rebuild_with_safe:
  assumes "safe_ins ins" "Rebuild_with ins hasher s = Some r"
  shows "\<exists>s'. r = Inr s' \<and> wf s'"
proof -
  from Rebuild_with_unfold [of s hasher ins]
  obtain c cnt where c: "is_pow2 c"
    and u: "Rebuild_with ins hasher s =
       insert_all ins (rebuild_start s c (Max (set cnt))) (collect_values s)"
    by blast
  from assms(2) u insert_all_safe [OF assms(1) wf_rebuild_start [OF c]]
  show ?thesis by metis
qed

lemma insert_loop_safe:
  "safe_ins (insert_loop fuel hasher :: ('k, 'v) HashMap \<Rightarrow> ('k \<times> 'v) \<Rightarrow> ('k, 'v) result)"
proof (induction fuel)
  case 0
  show ?case by (simp add: safe_ins_def)
next
  case (Suc fuel)
  define ins :: "('k, 'v) HashMap \<Rightarrow> ('k \<times> 'v) \<Rightarrow> ('k, 'v) result"
    where "ins = insert_with (insert_loop fuel hasher) hasher"
  have ins: "safe_ins ins"
    unfolding ins_def using Suc by (rule insert_with_safe)
  show ?case
    unfolding safe_ins_def
  proof (intro allI impI)
    fix s :: "('k, 'v) HashMap" and e r
    assume w: "wf s" and r: "insert_loop (Suc fuel) hasher s e = Some r"
    from insert_walk_wf [OF w GetBucket_less [OF w], of hasher "fst e" 0 "Some e"]
    obtain s1 p where walk: "insert_walk s (GetBucket hasher s (fst e)) 0 (Some e) = Inr (s1, p)"
      and w1: "wf s1" by blast
    show "\<exists>s'. r = Inr s' \<and> wf s'"
    proof (cases p)
      case None
      with walk r w1 show ?thesis by (auto simp: wf_def)
    next
      case (Some q)
      show ?thesis
      proof (cases "Rebuild_with ins hasher s1")
        case None
        with walk Some r show ?thesis by (simp add: ins_def)
      next
        case (Some rr)
        from Rebuild_with_safe [OF ins Some] obtain s2 where s2: "rr = Inr s2" "wf s2" by blast
        with walk \<open>p = Some q\<close> Some r have "insert_loop fuel hasher s2 q = Some r"
          by (simp add: ins_def)
        with Suc s2(2) show ?thesis unfolding safe_ins_def by blast
      qed
    qed
  qed
qed

lemma insert_hm_safe: "safe_ins (insert_hm fuel hasher)"
  unfolding insert_hm_def by (rule insert_with_safe [OF insert_loop_safe])

lemma erase_wf:
  assumes "wf s"
  shows "\<exists>s'. erase hasher s key = Inr s' \<and> wf s'"
proof -
  from FindPosition_wf [OF assms, of hasher key]
  obtain p where p: "FindPosition hasher s key = Inr p" "p \<le> capacity_f s" by blast
  with assms show ?thesis by (auto simp: erase_def wf_def)
qed

subsection \<open>The representation invariant\<close>

lemma in_live_iff: "e \<in> set (live t) \<longleftrightarrow> (\<exists>i < length t. t ! i = Some e)"
proof -
  have "e \<in> set (live t) \<longleftrightarrow> Some e \<in> set t" by (force simp: live_def)
  then show ?thesis by (simp add: in_set_conv_nth)
qed

lemma live_Cons: "live (x # xs) = (case x of None \<Rightarrow> live xs | Some e \<Rightarrow> e # live xs)"
  by (simp add: live_def split: option.splits)

lemma live_distinct_slots:
  "distinct (map fst (live t)) \<Longrightarrow> i < length t \<Longrightarrow> j < length t \<Longrightarrow>
   t ! i = Some e \<Longrightarrow> t ! j = Some e' \<Longrightarrow> fst e = fst e' \<Longrightarrow> i = j"
proof (induction t arbitrary: i j)
  case Nil
  then show ?case by simp
next
  case (Cons x xs)
  have tl: "distinct (map fst (live xs))"
    using Cons.prems(1) by (simp add: live_Cons split: option.splits)
  show ?case
  proof (cases i)
    case i0: 0
    show ?thesis
    proof (cases j)
      case 0
      with i0 show ?thesis by simp
    next
      case (Suc j')
      with Cons.prems have "e' \<in> set (live xs)" by (auto simp: in_live_iff)
      then have "fst e' \<in> fst ` set (live xs)" by (rule imageI)
      with i0 Cons.prems show ?thesis by (simp add: live_Cons)
    qed
  next
    case iS: (Suc i')
    show ?thesis
    proof (cases j)
      case 0
      from iS Cons.prems have "e \<in> set (live xs)" by (auto simp: in_live_iff)
      then have "fst e \<in> fst ` set (live xs)" by (rule imageI)
      with 0 Cons.prems show ?thesis by (simp add: live_Cons)
    next
      case (Suc j')
      with iS Cons.prems Cons.IH [OF tl, of i' j'] show ?thesis by simp
    qed
  qed
qed

lemma inv_wf: "inv hasher s \<Longrightarrow> wf s"
  by (simp add: inv_def)

lemma FindPosition_present:
  assumes "inv hasher s" "i < capacity_f s" "table_f s ! i = Some e"
  shows "FindPosition hasher s (fst e) = Inr i"
proof -
  from assms(1) have w: "wf s" and d: "disp_ok hasher s"
    and u: "distinct (map fst (live (table_f s)))"
    and len: "length (table_f s) = capacity_f s"
    by (simp_all add: inv_def collect_values_live wf_def)
  from disp_okD [OF d _ assms(3)] assms(2) len have f: "from_f s ! i < BLOCK_SIZE s"
    "probe hasher s (fst e) (from_f s ! i) = i"
    by (simp_all add: probe_def)
  show ?thesis
  proof (rule FindPosition_cases [OF w, of hasher "fst e"])
    fix j assume j: "key_at s (probe hasher s (fst e) j) (fst e)"
      and r: "FindPosition hasher s (fst e) = Inr (probe hasher s (fst e) j)"
    from j obtain e' where e': "table_f s ! probe hasher s (fst e) j = Some e'" "fst e' = fst e"
      by (auto simp: key_at_def split: option.splits)
    from live_distinct_slots [OF u _ _ e'(1) assms(3) e'(2)] probe_less [OF w] assms(2) len
    have "probe hasher s (fst e) j = i" by simp
    with r show ?thesis by simp
  next
    assume "\<forall>j<BLOCK_SIZE s. \<not> key_at s (probe hasher s (fst e) j) (fst e)"
    with f assms(3) show ?thesis by (auto simp: key_at_def)
  qed
qed

lemma FindPosition_absent:
  assumes "inv hasher s" "key \<notin> fst ` set (collect_values s)"
  shows "FindPosition hasher s key = Inr (capacity_f s)"
proof -
  from assms(1) have w: "wf s" and len: "length (table_f s) = capacity_f s"
    by (simp_all add: inv_def wf_def)
  show ?thesis
  proof (rule FindPosition_cases [OF w, of hasher key])
    fix j assume j: "key_at s (probe hasher s key j) key"
    then obtain e' where e': "table_f s ! probe hasher s key j = Some e'" "fst e' = key"
      by (auto simp: key_at_def split: option.splits)
    with probe_less [OF w, of hasher key j] len have "e' \<in> set (collect_values s)"
      by (auto simp: collect_values_live in_live_iff)
    with e'(2) assms(2) show ?thesis by force
  next
    assume "FindPosition hasher s key = Inr (capacity_f s)"
    then show ?thesis .
  qed
qed

subsection \<open>What a rebuild leaves in capacity and probe limit\<close>

lemma tracked_refl: "tracked hasher s M s"
  by (simp add: tracked_def)

lemma rebuilt_cong:
  "rebuilt hasher vs s \<Longrightarrow> capacity_f s' = capacity_f s \<Longrightarrow> BLOCK_SIZE s' = BLOCK_SIZE s \<Longrightarrow>
   rebuilt hasher vs s'"
  by (simp add: rebuilt_def)

lemma tracked_trans:
  assumes "tracked hasher s M1 s1" "tracked hasher s1 M2 s2" "M1 \<subseteq># M2"
  shows "tracked hasher s M2 s2"
proof (cases "capacity_f s2 = capacity_f s1 \<and> BLOCK_SIZE s2 = BLOCK_SIZE s1")
  case same: True
  show ?thesis
  proof (cases "capacity_f s1 = capacity_f s \<and> BLOCK_SIZE s1 = BLOCK_SIZE s")
    case True
    with same show ?thesis by (simp add: tracked_def)
  next
    case False
    with assms(1) obtain vs where vs: "mset vs \<subseteq># M1" "rebuilt hasher vs s1"
      by (auto simp: tracked_def)
    from vs(1) assms(3) have "mset vs \<subseteq># M2" by (rule subset_mset.order_trans)
    moreover from vs(2) same have "rebuilt hasher vs s2" by (simp add: rebuilt_cong)
    ultimately show ?thesis unfolding tracked_def by blast
  qed
next
  case False
  with assms(2) show ?thesis by (auto simp: tracked_def)
qed

lemma rebuilt_tracked:
  assumes "rebuilt hasher vs s1" "mset vs \<subseteq># M" "tracked hasher s1 M s2"
  shows "\<exists>vs'. mset vs' \<subseteq># M \<and> rebuilt hasher vs' s2"
proof (cases "capacity_f s2 = capacity_f s1 \<and> BLOCK_SIZE s2 = BLOCK_SIZE s1")
  case True
  with assms(1) have "rebuilt hasher vs s2" by (simp add: rebuilt_cong)
  with assms(2) show ?thesis by blast
next
  case False
  with assms(3) show ?thesis by (auto simp: tracked_def)
qed

lemma distinct_keys_mset:
  assumes "mset xs = mset ys"
  shows "distinct (map fst xs) \<longleftrightarrow> distinct (map fst ys)"
proof -
  from assms have "mset (map fst xs) = mset (map fst ys)" by simp
  then show ?thesis by (rule mset_eq_imp_distinct_iff)
qed

lemma live_replicate_None [simp]: "live (replicate c None) = []"
  by (simp add: live_def)

lemma collect_values_rebuild_start [simp]: "collect_values (rebuild_start s c m) = []"
  by (simp add: collect_values_live rebuild_start_def)

lemma inv_rebuild_start: "is_pow2 c \<Longrightarrow> inv hasher (rebuild_start s c m)"
  unfolding inv_def
  by (simp add: wf_rebuild_start) (simp add: rebuild_start_def disp_ok_def)

lemma Max_set_cnt:
  assumes "length cnt = c" "\<forall>b < c. cnt ! b = f b"
  shows "Max (set cnt) = Max (f ` {..<c})"
proof -
  have "set cnt = f ` {..<c}"
  proof (intro set_eqI iffI)
    fix x assume "x \<in> set cnt"
    then obtain i where "i < length cnt" "cnt ! i = x" by (auto simp: in_set_conv_nth)
    with assms show "x \<in> f ` {..<c}" by auto
  next
    fix x assume "x \<in> f ` {..<c}"
    then obtain b where "b < c" "x = f b" by auto
    with assms have "b < length cnt" "cnt ! b = x" by auto
    then show "x \<in> set cnt" by (auto simp: in_set_conv_nth)
  qed
  then show ?thesis by simp
qed

lemma insert_all_good:
  "good_ins hasher ins \<Longrightarrow> inv hasher s \<Longrightarrow> distinct (map fst (collect_values s @ vs)) \<Longrightarrow>
   insert_all ins s vs = Some r \<Longrightarrow>
   \<exists>s'. r = Inr s' \<and> inv hasher s' \<and>
     mset (collect_values s') = mset (collect_values s) + mset vs \<and>
     tracked hasher s (mset (collect_values s) + mset vs) s' \<and> (small s \<longrightarrow> small s')"
proof (induction vs arbitrary: s)
  case Nil
  then show ?case by (auto simp: tracked_refl)
next
  case (Cons v vs)
  from Cons.prems(3) have fresh: "fst v \<notin> fst ` set (collect_values s)" by auto
  show ?case
  proof (cases "ins s v")
    case None
    with Cons.prems(4) show ?thesis by simp
  next
    case (Some r1)
    from Cons.prems(1) [unfolded good_ins_def, rule_format, OF Cons.prems(2) fresh Some]
    obtain s1 where s1: "r1 = Inr s1" "inv hasher s1"
      "mset (collect_values s1) = add_mset v (mset (collect_values s))"
      "tracked hasher s (add_mset v (mset (collect_values s))) s1"
      "small s \<longrightarrow> small s1" by blast
    from s1(1) Some Cons.prems(4) have run: "insert_all ins s1 vs = Some r" by simp
    have "mset (collect_values s1 @ vs) = mset (collect_values s @ v # vs)"
      using s1(3) by simp
    from distinct_keys_mset [OF this] Cons.prems(3)
    have d1: "distinct (map fst (collect_values s1 @ vs))" by simp
    from Cons.IH [OF Cons.prems(1) s1(2) d1 run]
    obtain s' where s': "r = Inr s'" "inv hasher s'"
      "mset (collect_values s') = mset (collect_values s1) + mset vs"
      "tracked hasher s1 (mset (collect_values s1) + mset vs) s'"
      "small s1 \<longrightarrow> small s'" by blast
    have eq: "mset (collect_values s1) + mset vs = mset (collect_values s) + mset (v # vs)"
      using s1(3) by simp
    have sub: "add_mset v (mset (collect_values s)) \<subseteq># mset (collect_values s) + mset (v # vs)"
      by simp
    from tracked_trans [OF s1(4) s'(4) [unfolded eq] sub] s'(1-3,5) s1(5) eq
    show ?thesis by simp
  qed
qed

lemma Rebuild_with_good:
  assumes "good_ins hasher ins" "inv hasher s" "Rebuild_with ins hasher s = Some r"
  shows "\<exists>s'. r = Inr s' \<and> inv hasher s' \<and>
     mset (collect_values s') = mset (collect_values s) \<and>
     (\<exists>vs. mset vs \<subseteq># mset (collect_values s) \<and> rebuilt hasher vs s') \<and> small s'"
proof -
  from Rebuild_with_unfold [of s hasher ins]
  obtain c cnt where c: "grow_capacity (size_f s) 1 = Some c" "is_pow2 c"
    and cnt: "length cnt = c"
      "\<forall>b < c. cnt ! b = length (filter (\<lambda>e. hasher (fst e) mod c = b) (collect_values s))"
    and u: "Rebuild_with ins hasher s =
       insert_all ins (rebuild_start s c (Max (set cnt))) (collect_values s)"
    by blast
  define s0 where "s0 = rebuild_start s c (Max (set cnt))"
  have i0: "inv hasher s0" unfolding s0_def by (rule inv_rebuild_start [OF c(2)])
  have d0: "distinct (map fst (collect_values s0 @ collect_values s))"
    using assms(2) by (simp add: s0_def inv_def)
  from u assms(3) have run: "insert_all ins s0 (collect_values s) = Some r"
    by (simp add: s0_def)
  from insert_all_good [OF assms(1) i0 d0 run]
  obtain s' where s': "r = Inr s'" "inv hasher s'"
    "mset (collect_values s') = mset (collect_values s)"
    "tracked hasher s0 (mset (collect_values s)) s'" "small s0 \<longrightarrow> small s'"
    by (auto simp: s0_def)
  have "small s0" by (simp add: s0_def small_def rebuild_start_def)
  with s'(5) have sm: "small s'" by simp
  have m: "Max (set cnt) = cluster_max hasher c (collect_values s)"
    unfolding cluster_max_def by (rule Max_set_cnt [OF cnt])
  have sz: "size_f s = length (collect_values s)" using assms(2) by (simp add: inv_def)
  have r0: "rebuilt hasher (collect_values s) s0"
    using c(1) by (simp add: rebuilt_def s0_def rebuild_start_def m sz)
  from rebuilt_tracked [OF r0 _ s'(4)] s'(1-3) sm show ?thesis by auto
qed

lemma wf_size_update [simp]: "wf (s\<lparr>size_f := n\<rparr>) = wf s"
  by (simp add: wf_def)

lemma disp_ok_size_update [simp]: "disp_ok hasher (s\<lparr>size_f := n\<rparr>) = disp_ok hasher s"
  by (simp add: disp_ok_def)

lemma collect_values_size_update [simp]: "collect_values (s\<lparr>size_f := n\<rparr>) = collect_values s"
  by (simp add: collect_values_def)

lemma insert_with_good:
  assumes "good_ins hasher loop"
  shows "good_ins hasher (insert_with loop hasher)"
  unfolding good_ins_def
proof (intro allI impI)
  fix s :: "('a, 'b) HashMap" and e r
  assume i: "inv hasher s" and fresh: "fst e \<notin> fst ` set (collect_values s)"
    and r: "insert_with loop hasher s e = Some r"
  from i have "length (table_f s) = capacity_f s" by (simp add: inv_def wf_def)
  with FindPosition_absent [OF i fresh] have "find_hm hasher s (fst e) = Inr (end_it s)"
    by (simp add: find_hm_def end_it_def)
  with r have "loop s e = Some r" by (simp add: insert_with_def)
  with assms i fresh
  show "\<exists>s'. r = Inr s' \<and> inv hasher s' \<and>
      mset (collect_values s') = add_mset e (mset (collect_values s)) \<and>
      tracked hasher s (add_mset e (mset (collect_values s))) s' \<and> (small s \<longrightarrow> small s')"
    unfolding good_ins_def by blast
qed

lemma insert_loop_good:
  "good_ins hasher (insert_loop fuel hasher :: ('k, 'v) HashMap \<Rightarrow> ('k \<times> 'v) \<Rightarrow> ('k, 'v) result)"
proof (induction fuel)
  case 0
  show ?case by (simp add: good_ins_def)
next
  case (Suc fuel)
  define ins :: "('k, 'v) HashMap \<Rightarrow> ('k \<times> 'v) \<Rightarrow> ('k, 'v) result"
    where "ins = insert_with (insert_loop fuel hasher) hasher"
  have ins: "good_ins hasher ins"
    unfolding ins_def using Suc by (rule insert_with_good)
  show ?case
    unfolding good_ins_def
  proof (intro allI impI)
    fix s :: "('k, 'v) HashMap" and e r
    assume i: "inv hasher s" and fresh: "fst e \<notin> fst ` set (collect_values s)"
      and r: "insert_loop (Suc fuel) hasher s e = Some r"
    let ?M = "add_mset e (mset (collect_values s))"
    from i have w: "wf s" and d: "disp_ok hasher s" and sz: "size_f s = length (collect_values s)"
      and dk: "distinct (map fst (collect_values s))" and bs: "DEFAULT_BLOCK_SIZE \<le> BLOCK_SIZE s"
      by (simp_all add: inv_def)
    from insert_walk_wf [OF w GetBucket_less [OF w], of hasher "fst e" 0 "Some e"]
    obtain s1 p where walk: "insert_walk s (GetBucket hasher s (fst e)) 0 (Some e) = Inr (s1, p)"
      and w1: "wf s1" and same: "capacity_f s1 = capacity_f s" "BLOCK_SIZE s1 = BLOCK_SIZE s"
        "size_f s1 = size_f s" by blast
    have c0: "\<forall>e'. Some e = Some e' \<longrightarrow>
        (hasher (fst e') + 0) mod capacity_f s = GetBucket hasher s (fst e)"
      by (simp add: GetBucket_mod [OF w])
    from insert_walk_inv [OF w d GetBucket_less [OF w] c0 walk]
    have d1: "disp_ok hasher s1"
      and ms: "mset (collect_values s1) + carried p = add_mset e (mset (collect_values s))"
      by (simp_all add: carried_def)
    show "\<exists>s'. r = Inr s' \<and> inv hasher s' \<and> mset (collect_values s') = ?M \<and>
        tracked hasher s ?M s' \<and> (small s \<longrightarrow> small s')"
    proof (cases p)
      case None
      with ms have eq: "mset (collect_values s1) = mset (e # collect_values s)"
        by (simp add: carried_def)
      from arg_cong [OF eq, of size] have len: "length (collect_values s1) = Suc (length (collect_values s))"
        by simp
      from distinct_keys_mset [OF eq] dk fresh have dk1: "distinct (map fst (collect_values s1))"
        by simp
      from None walk r have r': "r = Inr (s1\<lparr>size_f := size_f s1 + 1\<rparr>)" by simp
      have "inv hasher (s1\<lparr>size_f := size_f s1 + 1\<rparr>)"
        using w1 d1 len dk1 bs same sz by (simp add: inv_def)
      moreover have "tracked hasher s ?M (s1\<lparr>size_f := size_f s1 + 1\<rparr>)"
        using same by (simp add: tracked_def)
      moreover have "small s \<longrightarrow> small (s1\<lparr>size_f := size_f s1 + 1\<rparr>)"
      proof
        assume sm: "small s"
        have "GetBucket hasher s (fst e) = (GetBucket hasher s (fst e) + 0) mod capacity_f s"
          using GetBucket_less [OF w, of hasher "fst e"] by simp
        from insert_walk_small [OF w GetBucket_less [OF w] this _ sm _ walk [unfolded None]]
        have "small s1" by simp
        then show "small (s1\<lparr>size_f := size_f s1 + 1\<rparr>)" by (simp add: small_def)
      qed
      ultimately show ?thesis using r' eq by simp
    next
      case (Some q)
      with ms have eq: "mset (collect_values s1 @ [q]) = mset (collect_values s @ [e])"
        by (simp add: carried_def)
      from arg_cong [OF eq, of size] have len: "length (collect_values s1) = length (collect_values s)"
        by simp
      from distinct_keys_mset [OF eq] dk fresh
      have dk1: "distinct (map fst (collect_values s1))"
        and fq: "fst q \<notin> fst ` set (collect_values s1)" by auto
      have i1: "inv hasher s1"
        using w1 d1 len dk1 bs same sz by (simp add: inv_def)
      have sub1: "mset (collect_values s1) \<subseteq># ?M"
        using eq by (metis mset_append mset_subset_eq_add_left union_mset_add_mset_right
            add.right_neutral mset.simps add_mset_add_single)
      show ?thesis
      proof (cases "Rebuild_with ins hasher s1")
        case None
        with walk Some r show ?thesis by (simp add: ins_def)
      next
        case (Some rr)
        from Rebuild_with_good [OF ins i1 Some]
        obtain s2 vs where s2: "rr = Inr s2" "inv hasher s2"
          "mset (collect_values s2) = mset (collect_values s1)"
          "mset vs \<subseteq># mset (collect_values s1)" "rebuilt hasher vs s2" "small s2" by blast
        from s2(1) walk \<open>p = Some q\<close> Some r have run: "insert_loop fuel hasher s2 q = Some r"
          by (simp add: ins_def)
        from s2(3) have "set (collect_values s2) = set (collect_values s1)" by (rule mset_eq_setD)
        with fq have fq2: "fst q \<notin> fst ` set (collect_values s2)" by simp
        from Suc [unfolded good_ins_def, rule_format, OF s2(2) fq2 run]
        obtain s' where s': "r = Inr s'" "inv hasher s'"
          "mset (collect_values s') = add_mset q (mset (collect_values s2))"
          "tracked hasher s2 (add_mset q (mset (collect_values s2))) s'"
          "small s2 \<longrightarrow> small s'" by blast
        have M: "add_mset q (mset (collect_values s2)) = ?M"
          using eq s2(3) by simp
        from s2(4) sub1 have "mset vs \<subseteq># ?M" by (rule subset_mset.order_trans)
        from rebuilt_tracked [OF s2(5) this s'(4) [unfolded M]]
        have "tracked hasher s ?M s'" unfolding tracked_def by blast
        with s'(1-3) s'(5) s2(6) M show ?thesis by simp
      qed
    qed
  qed
qed

lemma insert_hm_good: "good_ins hasher (insert_hm fuel hasher)"
  unfolding insert_hm_def by (rule insert_with_good [OF insert_loop_good])

subsection \<open>The operations on a table that satisfies the invariant\<close>

lemma slot_of_entry:
  assumes "inv hasher s" "e \<in> set (collect_values s)"
  obtains i where "i < capacity_f s" "table_f s ! i = Some e"
  using assms by (auto simp: collect_values_live in_live_iff inv_def wf_def)

lemma entry_of_slot:
  "inv hasher s \<Longrightarrow> i < capacity_f s \<Longrightarrow> table_f s ! i = Some e \<Longrightarrow> e \<in> set (collect_values s)"
  by (auto simp: collect_values_live in_live_iff inv_def wf_def)

lemma find_hm_present:
  assumes "inv hasher s" "i < capacity_f s" "table_f s ! i = Some e"
  shows "find_hm hasher s (fst e) = Inr i" "i \<noteq> end_it s" "deref (table_f s) i = Inr e"
  using FindPosition_present [OF assms] assms
  by (simp_all add: find_hm_def end_it_def deref_def inv_def wf_def)

lemma find_hm_absent:
  assumes "inv hasher s" "key \<notin> fst ` set (collect_values s)"
  shows "find_hm hasher s key = Inr (end_it s)"
  using FindPosition_absent [OF assms] assms(1)
  by (simp add: find_hm_def end_it_def inv_def wf_def)

lemma insert_hm_present:
  assumes "inv hasher s" "fst e \<in> fst ` set (collect_values s)"
  shows "insert_hm fuel hasher s e = Some (Inr s)"
proof -
  from assms(2) obtain e' where e': "e' \<in> set (collect_values s)" "fst e' = fst e" by auto
  from slot_of_entry [OF assms(1) e'(1)]
  obtain i where i: "i < capacity_f s" "table_f s ! i = Some e'" by blast
  from find_hm_present(1,2) [OF assms(1) i] e'(2)
  show ?thesis by (simp add: insert_hm_def insert_with_def)
qed

lemma insert_hm_absent:
  assumes "inv hasher s" "fst e \<notin> fst ` set (collect_values s)"
    "insert_hm fuel hasher s e = Some r"
  shows "\<exists>s'. r = Inr s' \<and> inv hasher s' \<and>
    mset (collect_values s') = add_mset e (mset (collect_values s)) \<and>
    size_f s' = size_f s + 1 \<and> (small s \<longrightarrow> small s')"
proof -
  from insert_hm_good [of hasher fuel, unfolded good_ins_def, rule_format, OF assms]
  obtain s' where s': "r = Inr s'" "inv hasher s'"
    "mset (collect_values s') = add_mset e (mset (collect_values s))"
    "small s \<longrightarrow> small s'" by blast
  from arg_cong [OF s'(3), of size] have "length (collect_values s') = length (collect_values s) + 1"
    by simp
  with s'(2) assms(1) have "size_f s' = size_f s + 1" by (simp add: inv_def)
  with s' show ?thesis by simp
qed

lemma erase_absent:
  assumes "inv hasher s" "key \<notin> fst ` set (collect_values s)"
  shows "erase hasher s key = Inr s"
  using FindPosition_absent [OF assms] by (simp add: erase_def)

lemma erase_present:
  assumes "inv hasher s" "i < capacity_f s" "table_f s ! i = Some e"
  defines "s' \<equiv> s\<lparr>size_f := size_f s - 1, table_f := (table_f s)[i := None]\<rparr>"
  shows "erase hasher s (fst e) = Inr s'" "inv hasher s'" "0 < size_f s"
    "mset (collect_values s) = add_mset e (mset (collect_values s'))"
    "fst e \<notin> fst ` set (collect_values s')" "small s \<longrightarrow> small s'"
proof -
  show "small s \<longrightarrow> small s'"
    unfolding small_def s'_def
  proof (intro impI allI)
    fix j
    assume sm: "\<forall>i<length (table_f s). table_f s ! i \<noteq> None \<longrightarrow> from_f s ! i < capacity_f s"
      and j: "j < length (table_f (s\<lparr>size_f := size_f s - 1, table_f := (table_f s)[i := None]\<rparr>))"
      and o: "table_f (s\<lparr>size_f := size_f s - 1, table_f := (table_f s)[i := None]\<rparr>) ! j \<noteq> None"
    from j o have "j \<noteq> i" by auto
    with j o sm
    show "from_f (s\<lparr>size_f := size_f s - 1, table_f := (table_f s)[i := None]\<rparr>) ! j
        < capacity_f (s\<lparr>size_f := size_f s - 1, table_f := (table_f s)[i := None]\<rparr>)"
      by simp
  qed
  from assms(1) have w: "wf s" and d: "disp_ok hasher s" and sz: "size_f s = length (collect_values s)"
    and dk: "distinct (map fst (collect_values s))" and bs: "DEFAULT_BLOCK_SIZE \<le> BLOCK_SIZE s"
    and len: "length (table_f s) = capacity_f s"
    by (simp_all add: inv_def wf_def)
  from mset_live_update [of i "table_f s" None] assms(2,3) len
  have eq: "mset (collect_values s) = mset (e # collect_values s')"
    by (simp add: collect_values_live carried_def s'_def)
  then show "mset (collect_values s) = add_mset e (mset (collect_values s'))" by simp
  from arg_cong [OF eq, of size] have l: "length (collect_values s) = Suc (length (collect_values s'))"
    by simp
  with sz show pos: "0 < size_f s" by simp
  from distinct_keys_mset [OF eq] dk
  have dk': "distinct (map fst (collect_values s'))" and fr: "fst e \<notin> fst ` set (collect_values s')"
    by auto
  from fr show "fst e \<notin> fst ` set (collect_values s')" .
  have d': "disp_ok hasher s'"
    unfolding disp_ok_def
  proof (intro allI impI)
    fix j e' assume j: "j < length (table_f s')" and e': "table_f s' ! j = Some e'"
    then have "j \<noteq> i" by (auto simp: s'_def)
    with j e' have "j < length (table_f s)" "table_f s ! j = Some e'" by (simp_all add: s'_def)
    from disp_okD [OF d this]
    show "from_f s' ! j < BLOCK_SIZE s' \<and> (hasher (fst e') + from_f s' ! j) mod capacity_f s' = j"
      by (simp add: s'_def)
  qed
  from w have w': "wf s'" by (simp add: wf_def s'_def)
  have fields: "size_f s' = size_f s - 1" "BLOCK_SIZE s' = BLOCK_SIZE s"
    by (simp_all add: s'_def)
  from w' d' dk' bs l sz fields show "inv hasher s'" by (simp add: inv_def)
  from FindPosition_present [OF assms(1-3)] assms(2) len pos
  show "erase hasher s (fst e) = Inr s'"
    by (simp add: erase_def size_t_dec_def s'_def)
qed

lemma is_pow2_Suc0 [simp]: "is_pow2 (Suc 0)"
  using is_pow2_1 by simp

lemma inv_construct: "inv hasher construct"
  by (simp add: inv_def wf_def construct_def disp_ok_def collect_values_def)

lemma clear_inv: "clear s = Inr (construct\<lparr>from_f := resize (from_f s) 1 0\<rparr>)"
proof -
  have "\<exists>x. resize (table_f s) 1 None = [x]"
    by (cases "table_f s") (simp_all add: resize_def)
  then obtain x where "resize (table_f s) 1 None = [x]" ..
  then show ?thesis by (simp add: clear_def construct_def Let_def)
qed

lemma inv_cleared: "inv hasher (construct\<lparr>from_f := resize (from_f s) 1 0\<rparr>)"
  by (simp add: inv_def wf_def construct_def disp_ok_def collect_values_def)

lemma index_op_present:
  assumes "inv hasher s" "i < capacity_f s" "table_f s ! i = Some e"
  shows "index_op fuel hasher dflt s (fst e) = Some (Inr (s, snd e))"
  using find_hm_present [OF assms] by (simp add: index_op_def)

lemma index_op_absent:
  assumes "inv hasher s" "key \<notin> fst ` set (collect_values s)"
    "index_op fuel hasher dflt s key = Some r"
  shows "\<exists>s'. r = Inr (s', dflt) \<and> insert_hm fuel hasher s (key, dflt) = Some (Inr s')"
proof -
  from find_hm_absent [OF assms(1,2)] have f: "find_hm hasher s key = Inr (end_it s)" .
  show ?thesis
  proof (cases "insert_hm fuel hasher s (key, dflt)")
    case None
    with f assms(3) show ?thesis by (simp add: index_op_def)
  next
    case (Some r1)
    from insert_hm_absent [OF assms(1) _ Some] assms(2)
    obtain s' where s': "r1 = Inr s'" "inv hasher s'"
      "mset (collect_values s') = add_mset (key, dflt) (mset (collect_values s))" by auto
    from arg_cong [OF s'(3), of set_mset] have "(key, dflt) \<in> set (collect_values s')"
      by simp
    from slot_of_entry [OF s'(2) this]
    obtain i where i: "i < capacity_f s'" "table_f s' ! i = Some (key, dflt)" by blast
    from find_hm_present [OF s'(2) i] f Some s'(1) assms(3)
    show ?thesis by (simp add: index_op_def)
  qed
qed

subsection \<open>The table as a finite map\<close>

lemma spec_insert_present: "k \<in> dom m \<Longrightarrow> spec_insert m k v = m"
  by (simp add: spec_insert_def)

lemma spec_insert_absent: "k \<notin> dom m \<Longrightarrow> spec_insert m k v = m(k \<mapsto> v)"
  by (simp add: spec_insert_def)

lemma abstracts_dom: "abstracts s m \<Longrightarrow> k \<in> dom m \<longleftrightarrow> k \<in> fst ` set (collect_values s)"
  by (force simp: abstracts_def dom_def)

lemma abstracts_insert:
  assumes "abstracts s m" "k \<notin> fst ` set (collect_values s)"
    "mset (collect_values s') = add_mset (k, v) (mset (collect_values s))"
  shows "abstracts s' (m(k \<mapsto> v))"
proof -
  from arg_cong [OF assms(3), of set_mset]
  have "set (collect_values s') = insert (k, v) (set (collect_values s))" by simp
  with assms(1,2) show ?thesis unfolding abstracts_def
    by (auto simp: image_iff)
qed

lemma abstracts_erase:
  assumes "abstracts s m" "fst e \<notin> fst ` set (collect_values s')"
    "mset (collect_values s) = add_mset e (mset (collect_values s'))"
  shows "abstracts s' (m(fst e := None))"
proof -
  from arg_cong [OF assms(3), of set_mset]
  have "set (collect_values s) = insert e (set (collect_values s'))" by simp
  with assms(1,2) show ?thesis unfolding abstracts_def
    by (cases e) (auto simp: image_iff)
qed

theorem reach_inv:
  "reach hasher dflt s m \<Longrightarrow> inv hasher s \<and> abstracts s m \<and> small s"
proof (induction rule: reach.induct)
  case reach_construct
  show ?case
    by (simp add: inv_construct abstracts_def)
      (simp add: construct_def collect_values_def small_def)
next
  case (reach_insert s m fuel k v s')
  then have i: "inv hasher s" and a: "abstracts s m" and sm: "small s" by simp_all
  show ?case
  proof (cases "k \<in> fst ` set (collect_values s)")
    case True
    with insert_hm_present [OF i, of "(k, v)" fuel] reach_insert.hyps(2) have "s' = s" by simp
    with i a sm True abstracts_dom [OF a, of k] show ?thesis by (simp add: spec_insert_present)
  next
    case False
    from insert_hm_absent [OF i _ reach_insert.hyps(2)] False sm
    have s': "inv hasher s'" "mset (collect_values s') = add_mset (k, v) (mset (collect_values s))"
      "small s'" by auto
    from False abstracts_dom [OF a, of k] have "k \<notin> dom m" by simp
    then have eq: "spec_insert m k v = m(k \<mapsto> v)" by (rule spec_insert_absent)
    from abstracts_insert [OF a False s'(2)] s'(1,3)
    show ?thesis unfolding eq by (intro conjI)
  qed
next
  case (reach_erase s m k s')
  then have i: "inv hasher s" and a: "abstracts s m" and sm: "small s" by simp_all
  show ?case
  proof (cases "k \<in> fst ` set (collect_values s)")
    case False
    with erase_absent [OF i False] reach_erase.hyps(2) have "s' = s" by simp
    moreover from False abstracts_dom [OF a, of k] have "m k = None" by (auto simp: dom_def)
    then have "spec_erase m k = m" unfolding spec_erase_def by (rule fun_upd_idem)
    ultimately show ?thesis using i a sm by simp
  next
    case True
    then obtain e where e: "e \<in> set (collect_values s)" "fst e = k" by auto
    from slot_of_entry [OF i e(1)] obtain j where j: "j < capacity_f s" "table_f s ! j = Some e"
      by blast
    from erase_present [OF i j] reach_erase.hyps(2) e(2) sm
    have s': "inv hasher s'" "mset (collect_values s) = add_mset e (mset (collect_values s'))"
      "fst e \<notin> fst ` set (collect_values s')" "small s'" by auto
    from abstracts_erase [OF a s'(3,2)] have "abstracts s' (spec_erase m (fst e))"
      by (simp only: spec_erase_def)
    with s'(1,4) e(2) show ?thesis by blast
  qed
next
  case (reach_index s m fuel k s' v)
  then have i: "inv hasher s" and a: "abstracts s m" and sm: "small s" by simp_all
  show ?case
  proof (cases "k \<in> fst ` set (collect_values s)")
    case True
    then obtain e where e: "e \<in> set (collect_values s)" "fst e = k" by auto
    from slot_of_entry [OF i e(1)] obtain j where j: "j < capacity_f s" "table_f s ! j = Some e"
      by blast
    from index_op_present [OF i j, of fuel dflt] reach_index.hyps(2) e(2) have "s' = s" by simp
    with i a sm True abstracts_dom [OF a, of k] show ?thesis by (simp add: spec_insert_present)
  next
    case False
    from index_op_absent [OF i False reach_index.hyps(2)]
    have ins: "insert_hm fuel hasher s (k, dflt) = Some (Inr s')" by auto
    from insert_hm_absent [OF i _ ins] False sm
    have s': "inv hasher s'" "mset (collect_values s') = add_mset (k, dflt) (mset (collect_values s))"
      "small s'" by auto
    from False abstracts_dom [OF a, of k] have "k \<notin> dom m" by simp
    then have eq: "spec_insert m k dflt = m(k \<mapsto> dflt)" by (rule spec_insert_absent)
    from abstracts_insert [OF a False s'(2)] s'(1,3)
    show ?thesis unfolding eq by (intro conjI)
  qed
next
  case (reach_clear s m s')
  then have s': "s' = construct\<lparr>from_f := resize (from_f s) 1 0\<rparr>" by (simp add: clear_inv)
  have "collect_values (construct\<lparr>from_f := resize (from_f s) 1 0\<rparr> :: ('a, 'b) HashMap) = []"
    by (simp add: construct_def collect_values_def)
  moreover have "small (construct\<lparr>from_f := resize (from_f s) 1 0\<rparr> :: ('a, 'b) HashMap)"
    by (simp add: construct_def small_def)
  ultimately show ?case using inv_cleared [of hasher s] unfolding s' abstracts_def by simp
qed

subsection \<open>Traversal\<close>

lemma live_drop: "i < length t \<Longrightarrow>
  live (drop i t) = (case t ! i of None \<Rightarrow> live (drop (Suc i) t) | Some e \<Rightarrow> e # live (drop (Suc i) t))"
  by (simp add: live_Cons flip: Cons_nth_drop_Suc)

lemma skip_empty_spec:
  "i \<le> length t \<Longrightarrow>
   \<exists>j. skip_empty t i = Inr j \<and> i \<le> j \<and> j \<le> length t \<and> (j < length t \<longrightarrow> t ! j \<noteq> None) \<and>
     live (drop i t) = live (drop j t)"
proof (induction t i rule: skip_empty.induct)
  case (1 t i)
  show ?case
  proof (cases "i = length t")
    case True
    then show ?thesis by (subst skip_empty.simps) simp
  next
    case False
    with "1.prems" have lt: "i < length t" by simp
    show ?thesis
    proof (cases "t ! i = None")
      case True
      from "1.IH" [OF False _ True] lt
      obtain j where j: "skip_empty t (i + 1) = Inr j" "i + 1 \<le> j" "j \<le> length t"
        "j < length t \<longrightarrow> t ! j \<noteq> None" "live (drop (i + 1) t) = live (drop j t)" by auto
      from j(5) True lt have "live (drop i t) = live (drop j t)" by (simp add: live_drop)
      with j lt True show ?thesis by (subst skip_empty.simps) simp
    next
      case nonempty: False
      with lt show ?thesis by (subst skip_empty.simps) auto
    qed
  qed
qed

lemma traverse_from_spec:
  "i \<le> length t \<Longrightarrow> (i < length t \<longrightarrow> t ! i \<noteq> None) \<Longrightarrow>
   traverse_from t i = Inr (live (drop i t))"
proof (induction t i rule: traverse_from.induct)
  case (1 t i)
  show ?case
  proof (cases "i = length t")
    case True
    then show ?thesis by (subst traverse_from.simps) (simp add: live_def)
  next
    case False
    with "1.prems" have lt: "i < length t" by simp
    with "1.prems" obtain x where x: "t ! i = Some x" by auto
    with lt have dr: "deref t i = Inr x" by (simp add: deref_def)
    from skip_empty_spec [of "i + 1" t] lt
    obtain j where j: "iter_next t i = Inr j" "j \<le> length t" "j < length t \<longrightarrow> t ! j \<noteq> None"
      "live (drop (i + 1) t) = live (drop j t)" by (auto simp: iter_next_def)
    from "1.IH" [OF False dr j(1) j(2) j(3)]
    have "traverse_from t j = Inr (live (drop j t))" .
    with False dr j x lt show ?thesis
      by (subst traverse_from.simps) (simp add: live_drop)
  qed
qed

lemma traverse_spec:
  assumes "0 < length (table_f s)"
  shows "traverse s = Inr (collect_values s)"
    "\<exists>j. begin_it s = Inr j \<and> (j = end_it s \<longleftrightarrow> collect_values s = [])"
proof -
  let ?t = "table_f s"
  have "\<exists>j. begin_it s = Inr j \<and> j \<le> length ?t \<and> (j < length ?t \<longrightarrow> ?t ! j \<noteq> None) \<and>
      live (drop j ?t) = live ?t"
  proof (cases "?t ! 0 = None")
    case True
    from skip_empty_spec [of 1 ?t] assms
    obtain j where "skip_empty ?t 1 = Inr j" "j \<le> length ?t" "j < length ?t \<longrightarrow> ?t ! j \<noteq> None"
      "live (drop 1 ?t) = live (drop j ?t)" by auto
    moreover from live_drop [of 0 ?t] True assms have "live ?t = live (drop 1 ?t)" by simp
    ultimately show ?thesis using True assms by (simp add: begin_it_def iter_next_def)
  next
    case False
    with assms show ?thesis by (auto simp: begin_it_def)
  qed
  then obtain j where j: "begin_it s = Inr j" "j \<le> length ?t" "j < length ?t \<longrightarrow> ?t ! j \<noteq> None"
    "live (drop j ?t) = live ?t" by blast
  from traverse_from_spec [OF j(2,3)] j(1,4)
  show "traverse s = Inr (collect_values s)" by (simp add: traverse_def collect_values_live)
  have "j = length ?t \<longleftrightarrow> live ?t = []"
  proof
    assume "j = length ?t"
    with j(4) show "live ?t = []" by (simp add: live_def)
  next
    assume e: "live ?t = []"
    show "j = length ?t"
    proof (rule ccontr)
      assume "j \<noteq> length ?t"
      with j(2,3) have "j < length ?t" "?t ! j \<noteq> None" by auto
      with live_drop [of j ?t] j(4) e show False by (auto split: option.splits)
    qed
  qed
  with j(1) show "\<exists>j. begin_it s = Inr j \<and> (j = end_it s \<longleftrightarrow> collect_values s = [])"
    by (simp add: end_it_def collect_values_live)
qed

lemma tab1_insert: "insert_hm 1 (\<lambda>k. k) construct (1::nat, ''a'') = Some (Inr tab1)"
  unfolding tab1_def by code_simp

lemma tab2_insert: "insert_hm 2 (\<lambda>k. k) tab1 (2, ''b'') = Some (Inr tab2)"
  unfolding tab1_def tab2_def by code_simp

lemma tab2_again: "insert_hm 0 (\<lambda>k. k) tab2 (1, ''z'') = Some (Inr tab2)"
  unfolding tab2_def by code_simp

lemma scenario_A_run:
  "insert_all (insert_hm 2 (\<lambda>k. k)) construct [(1::nat, ''a''), (2, ''b''), (1, ''z'')]
     = Some (Inr tab2)"
  unfolding tab2_def by code_simp

lemma tab2_reach: "reach (\<lambda>k. k) [] tab2 spec_A"
  unfolding spec_A_def
  by (rule reach_insert [OF reach_insert [OF reach_insert [OF reach_construct tab1_insert]
        tab2_insert] tab2_again])

lemma spec_A_1: "spec_A 1 = Some ''a''"
  by (simp add: spec_A_def spec_insert_def)

lemma spec_A_2: "spec_A 2 = Some ''b''"
  by (simp add: spec_A_def spec_insert_def)

lemma spec_A_3: "spec_A 3 = None"
  by (simp add: spec_A_def spec_insert_def)

lemma wf_gap_table: "wf gap_table"
proof -
  have "(8::nat) = 2 ^ 3" by simp
  then have "is_pow2 8" unfolding is_pow2_def by (rule exI)
  then show ?thesis by (simp add: wf_def gap_table_def)
qed

lemma probe_funpow:
  assumes "wf s"
  shows "(GetNext s ^^ j) (GetBucket hasher s key) = probe hasher s key j"
proof (induction j)
  case 0
  show ?case by (simp add: probe_def GetBucket_mod [OF assms])
next
  case (Suc j)
  then show ?case
    by (simp add: probe_def GetNext_mod [OF assms] mod_Suc_eq)
qed

text \<open>
  Claim C3. \<open>FindPosition\<close> inspects the window of \<open>BLOCK_SIZE\<close> consecutive slots that
  starts at the bucket of the key and advances by \<open>GetNext\<close>, wrapping modulo the capacity
  (\<open>probe hasher s key j\<close> is the \<open>j\<close>-th slot of the window). It returns the first slot of
  the window that is occupied by the key, whatever lies before it, empty slots included,
  and it returns the capacity (so that \<open>find_hm\<close> returns the end iterator) exactly when
  none of the \<open>BLOCK_SIZE\<close> slots of the window holds the key.
\<close>

theorem C3_find_window:
  assumes "wf s"
  shows "(\<forall>j. probe hasher s key j = (GetNext s ^^ j) (GetBucket hasher s key)) \<and>
    (\<forall>j < BLOCK_SIZE s.
       key_at s (probe hasher s key j) key \<and> (\<forall>j' < j. \<not> key_at s (probe hasher s key j') key) \<longrightarrow>
       FindPosition hasher s key = Inr (probe hasher s key j) \<and>
       find_hm hasher s key = Inr (probe hasher s key j) \<and> probe hasher s key j \<noteq> end_it s) \<and>
    ((\<forall>j < BLOCK_SIZE s. \<not> key_at s (probe hasher s key j) key) \<longleftrightarrow>
       FindPosition hasher s key = Inr (capacity_f s)) \<and>
    ((\<forall>j < BLOCK_SIZE s. \<not> key_at s (probe hasher s key j) key) \<longleftrightarrow>
       find_hm hasher s key = Inr (end_it s))"
proof -
  from assms have len: "length (table_f s) = capacity_f s" by (simp add: wf_def)
  have pl: "probe hasher s key j < capacity_f s" for j by (rule probe_less [OF assms])
  have hit: "FindPosition hasher s key = Inr (probe hasher s key j) \<and>
      find_hm hasher s key = Inr (probe hasher s key j) \<and> probe hasher s key j \<noteq> end_it s"
    if "j < BLOCK_SIZE s" "key_at s (probe hasher s key j) key"
      "\<forall>j' < j. \<not> key_at s (probe hasher s key j') key" for j
    using FindPosition_hit [OF assms that] pl [of j] len
    by (simp add: find_hm_def end_it_def)
  have miss1: "FindPosition hasher s key = Inr (capacity_f s)"
    if "\<forall>j < BLOCK_SIZE s. \<not> key_at s (probe hasher s key j) key"
    using FindPosition_miss [OF assms that] .
  have miss2: "\<forall>j < BLOCK_SIZE s. \<not> key_at s (probe hasher s key j) key"
    if "FindPosition hasher s key = Inr (capacity_f s)"
  proof (rule FindPosition_cases [OF assms, of hasher key])
    fix j assume "FindPosition hasher s key = Inr (probe hasher s key j)"
    with that pl [of j] show ?thesis by simp
  next
    assume "\<forall>j<BLOCK_SIZE s. \<not> key_at s (probe hasher s key j) key"
    then show ?thesis .
  qed
  from FindPosition_wf [OF assms, of hasher key]
  obtain p where p: "FindPosition hasher s key = Inr p" by blast
  have fe: "find_hm hasher s key = Inr (end_it s) \<longleftrightarrow> FindPosition hasher s key = Inr (capacity_f s)"
    by (cases "p = capacity_f s") (simp_all add: find_hm_def end_it_def p len)
  have c1: "\<forall>j. probe hasher s key j = (GetNext s ^^ j) (GetBucket hasher s key)"
    by (simp add: probe_funpow [OF assms])
  have c2: "\<forall>j < BLOCK_SIZE s.
       key_at s (probe hasher s key j) key \<and> (\<forall>j' < j. \<not> key_at s (probe hasher s key j') key) \<longrightarrow>
       FindPosition hasher s key = Inr (probe hasher s key j) \<and>
       find_hm hasher s key = Inr (probe hasher s key j) \<and> probe hasher s key j \<noteq> end_it s"
    using hit by blast
  have c3: "(\<forall>j < BLOCK_SIZE s. \<not> key_at s (probe hasher s key j) key) \<longleftrightarrow>
       FindPosition hasher s key = Inr (capacity_f s)"
    using miss1 miss2 by blast
  have c4: "(\<forall>j < BLOCK_SIZE s. \<not> key_at s (probe hasher s key j) key) \<longleftrightarrow>
       find_hm hasher s key = Inr (end_it s)"
    using c3 fe by simp
  show ?thesis by (rule conjI [OF c1 conjI [OF c2 conjI [OF c3 c4]]])
qed

theorem C3_find_window_witness:
  "wf gap_table \<and> key_at gap_table (probe (\<lambda>k. k) gap_table 8 2) 8 \<and>
   \<not> key_at gap_table (probe (\<lambda>k. k) gap_table 8 0) 8 \<and>
   \<not> key_at gap_table (probe (\<lambda>k. k) gap_table 8 1) 8 \<and>
   FindPosition (\<lambda>k. k) gap_table 8 = Inr 2"
proof -
  have k2: "key_at gap_table (probe (\<lambda>k. k) gap_table 8 2) 8"
    and k0: "\<not> key_at gap_table (probe (\<lambda>k. k) gap_table 8 0) 8"
    and k1: "\<not> key_at gap_table (probe (\<lambda>k. k) gap_table 8 1) 8"
    and p2: "probe (\<lambda>k. k) gap_table 8 2 = 2"
    by (simp_all add: key_at_def probe_def gap_table_def)
  have b: "(2::nat) < BLOCK_SIZE gap_table" by (simp add: gap_table_def)
  have first: "\<forall>j' < 2. \<not> key_at gap_table (probe (\<lambda>k. k) gap_table 8 j') 8"
    using k0 k1 by (auto simp: less_Suc_eq numeral_2_eq_2)
  from C3_find_window [OF wf_gap_table, of "\<lambda>k. k" 8] b k2 first
  have "FindPosition (\<lambda>k. k) gap_table 8 = Inr (probe (\<lambda>k. k) gap_table 8 2)" by blast
  with wf_gap_table k0 k1 k2 p2 show ?thesis by simp
qed

text \<open>
  Claim C10. When the capacity is a power of two and both vectors have that length, every
  index computed by \<open>GetBucket\<close> and \<open>GetNext\<close> lies inside the vectors, and
  \<open>FindPosition\<close>, \<open>erase\<close>, the walk of \<open>insert\<close>, \<open>insert\<close> itself and \<open>Rebuild\<close>
  never reach the error \<open>Undefined\<close> of an access out of range, whatever the probe
  limit is (it may exceed the capacity, so that the walk wraps around the table).
\<close>

theorem C10_in_bounds:
  assumes "wf s"
  shows "GetBucket hasher s key < length (table_f s) \<and> GetBucket hasher s key < length (from_f s) \<and>
    GetNext s h < length (table_f s) \<and> GetNext s h < length (from_f s) \<and>
    (\<exists>p. FindPosition hasher s key = Inr p) \<and>
    (\<exists>s'. erase hasher s key = Inr s' \<and> wf s') \<and>
    (\<forall>h2 < capacity_f s. \<exists>s' p. insert_walk s h2 diff ptr = Inr (s', p) \<and> wf s') \<and>
    (\<forall>fuel r. insert_hm fuel hasher s elem = Some r \<longrightarrow> (\<exists>s'. r = Inr s' \<and> wf s')) \<and>
    (\<forall>fuel r. Rebuild fuel hasher s = Some r \<longrightarrow> (\<exists>s'. r = Inr s' \<and> wf s'))"
proof -
  from assms have len: "length (table_f s) = capacity_f s" "length (from_f s) = capacity_f s"
    by (simp_all add: wf_def)
  have walk: "\<forall>h2 < capacity_f s. \<exists>s' p. insert_walk s h2 diff ptr = Inr (s', p) \<and> wf s'"
    using insert_walk_wf [OF assms, of _ diff ptr] by blast
  have ins: "\<forall>fuel r. insert_hm fuel hasher s elem = Some r \<longrightarrow> (\<exists>s'. r = Inr s' \<and> wf s')"
    using insert_hm_safe [of fuel hasher for fuel] assms unfolding safe_ins_def by blast
  have reb: "\<forall>fuel r. Rebuild fuel hasher s = Some r \<longrightarrow> (\<exists>s'. r = Inr s' \<and> wf s')"
    unfolding Rebuild_def using Rebuild_with_safe [OF insert_hm_safe] by blast
  from FindPosition_wf [OF assms, of hasher key]
  have fp: "\<exists>p. FindPosition hasher s key = Inr p" by blast
  show ?thesis
    using GetBucket_less [OF assms, of hasher key] GetNext_less [OF assms, of h] len
      fp erase_wf [OF assms, of hasher key] walk ins reb
    by (intro conjI) simp_all
qed

theorem C10_in_bounds_witness:
  "wf gap_table \<and> capacity_f gap_table < BLOCK_SIZE gap_table \<and>
   (\<exists>p. FindPosition (\<lambda>k. k) gap_table 5 = Inr p) \<and>
   (\<exists>s'. erase (\<lambda>k. k) gap_table 5 = Inr s' \<and> wf s')"
  using C10_in_bounds [OF wf_gap_table, of "\<lambda>k. k" 5] wf_gap_table
  by (simp add: gap_table_def)

lemma reach_present:
  assumes "reach hasher dflt s m" "m key = Some v"
  obtains i where "i < capacity_f s" "table_f s ! i = Some (key, v)"
proof -
  from reach_inv [OF assms(1)] have i: "inv hasher s" and a: "abstracts s m" by simp_all
  from a assms(2) have "(key, v) \<in> set (collect_values s)" by (simp add: abstracts_def)
  from slot_of_entry [OF i this] that show ?thesis by blast
qed

lemma reach_absent:
  assumes "reach hasher dflt s m" "m key = None"
  shows "key \<notin> fst ` set (collect_values s)"
proof -
  from reach_inv [OF assms(1)] have a: "abstracts s m" by simp
  from abstracts_dom [OF a, of key] assms(2) show ?thesis by (auto simp: dom_def)
qed

text \<open>
  Claim C1. In every table reached by a sequence of public operations, a key to which
  the specification's map assigns the value \<open>v\<close> (the key was inserted, not erased since,
  and \<open>v\<close> is the value of its first insertion since then) is found: \<open>find_hm\<close> returns a
  position that is not the end and holds \<open>(key, v)\<close>, \<open>at\<close> returns \<open>v\<close>, and the index
  operator returns \<open>v\<close> and leaves the table as it is.
\<close>

lemma tab2_at: "at (\<lambda>k. k) tab2 1 = Inr ''a''" "at (\<lambda>k. k) tab2 2 = Inr ''b''"
  unfolding tab2_def by code_simp+

lemma tab2_size: "size_hm tab2 = 2"
  by (simp add: size_hm_def tab2_def)

theorem C1_round_trip:
  assumes "reach hasher dflt s m" "m key = Some v"
  shows "\<exists>i. find_hm hasher s key = Inr i \<and> i \<noteq> end_it s \<and>
      deref (table_f s) i = Inr (key, v) \<and>
      at hasher s key = Inr v \<and>
      (\<forall>fuel. index_op fuel hasher dflt s key = Some (Inr (s, v)))"
proof -
  from reach_inv [OF assms(1)] have i: "inv hasher s" by simp
  from reach_present [OF assms] obtain j where j: "j < capacity_f s" "table_f s ! j = Some (key, v)"
    by blast
  from find_hm_present [OF i j] index_op_present [OF i j, of _ dflt]
  show ?thesis by (auto simp: at_def)
qed

theorem C1_round_trip_witness:
  "reach (\<lambda>k. k) [] tab2 spec_A \<and> spec_A 1 = Some ''a'' \<and> at (\<lambda>k. k) tab2 1 = Inr ''a'' \<and>
   index_op 0 (\<lambda>k. k) [] tab2 1 = Some (Inr (tab2, ''a''))"
  using C1_round_trip [OF tab2_reach spec_A_1] tab2_reach spec_A_1 by blast

text \<open>
  Claim C2. In every reachable table, \<open>insert\<close> of a key that is present returns at once
  with the table unchanged (the stored value and the size with it), and no two slots
  hold the same key. On the empty table, inserting (1, a), (2, b), (1, z) with the
  identity hash gives a table of size 2 in which 1 is bound to a and 2 to b.
\<close>

theorem C2_first_insert_wins:
  assumes "reach hasher dflt s m"
  shows "(\<forall>k v v' fuel. m k = Some v \<longrightarrow> insert_hm fuel hasher s (k, v') = Some (Inr s)) \<and>
    (\<forall>i j e e'. i < capacity_f s \<and> j < capacity_f s \<and> table_f s ! i = Some e \<and>
       table_f s ! j = Some e' \<and> fst e = fst e' \<longrightarrow> i = j) \<and>
    distinct (map fst (collect_values s)) \<and>
    (\<exists>t. insert_all (insert_hm 2 (\<lambda>k. k)) construct [(1::nat, ''a''), (2, ''b''), (1, ''z'')]
         = Some (Inr t) \<and>
       size_hm t = 2 \<and> at (\<lambda>k. k) t 1 = Inr ''a'' \<and> at (\<lambda>k. k) t 2 = Inr ''b'')"
proof -
  from reach_inv [OF assms] have i: "inv hasher s" and a: "abstracts s m" by simp_all
  from i have d: "distinct (map fst (live (table_f s)))" and len: "length (table_f s) = capacity_f s"
    by (simp_all add: inv_def collect_values_live wf_def)
  have c1: "\<forall>k v v' fuel. m k = Some v \<longrightarrow> insert_hm fuel hasher s (k, v') = Some (Inr s)"
  proof (intro allI impI)
    fix k v v' fuel assume "m k = Some v"
    with a have "(k, v) \<in> set (collect_values s)" by (simp add: abstracts_def)
    then have "k \<in> fst ` set (collect_values s)" by force
    with insert_hm_present [OF i, of "(k, v')" fuel]
    show "insert_hm fuel hasher s (k, v') = Some (Inr s)" by simp
  qed
  have c2: "\<forall>i j e e'. i < capacity_f s \<and> j < capacity_f s \<and> table_f s ! i = Some e \<and>
       table_f s ! j = Some e' \<and> fst e = fst e' \<longrightarrow> i = j"
    using live_distinct_slots [OF d] len by auto
  have c3: "distinct (map fst (collect_values s))" using d by (simp add: collect_values_live)
  have c4: "\<exists>t. insert_all (insert_hm 2 (\<lambda>k. k)) construct [(1::nat, ''a''), (2, ''b''), (1, ''z'')]
         = Some (Inr t) \<and>
       size_hm t = 2 \<and> at (\<lambda>k. k) t 1 = Inr ''a'' \<and> at (\<lambda>k. k) t 2 = Inr ''b''"
    using scenario_A_run tab2_at tab2_size by blast
  show ?thesis by (rule conjI [OF c1 conjI [OF c2 conjI [OF c3 c4]]])
qed

theorem C2_first_insert_wins_witness:
  "reach (\<lambda>k. k) [] tab2 spec_A \<and> spec_A 1 = Some ''a'' \<and>
   insert_hm 0 (\<lambda>k. k) tab2 (1, ''z'') = Some (Inr tab2)"
  using C2_first_insert_wins [OF tab2_reach] tab2_reach spec_A_1 by blast

lemma steps_unique:
  assumes "b < c" "f < c" "(b + f) mod c = (i::nat)"
  shows "(i + c - b) mod c = f"
proof (cases "b + f < c")
  case True
  with assms(3) have "i = b + f" by simp
  then have "i + c - b = f + c" by simp
  with assms(2) show ?thesis by simp
next
  case False
  with assms(1,2) have "(b + f) mod c = b + f - c" by (simp add: mod_if)
  with assms(3) have "i = b + f - c" by simp
  with False have "i + c - b = f" by simp
  with assms(2) show ?thesis by simp
qed

text \<open>
  Claim C6. In every reachable table, an occupied slot \<open>i\<close> that holds the key \<open>k\<close> is
  reached from the bucket of \<open>k\<close> by exactly \<open>from_f s ! i\<close> applications of \<open>GetNext\<close>,
  and the counter is the least such number: it is below the capacity and equals
  \<open>(i + capacity - bucket) mod capacity\<close>, the number of forward probe steps from the
  bucket to the slot modulo the capacity. The counter is also below \<open>BLOCK_SIZE\<close>.
  Both facts hold again after every \<open>insert\<close> and every \<open>erase\<close> that returns, whatever
  swaps and rebuilds the insertion makes.
\<close>

theorem C6_displacement:
  assumes "reach hasher dflt s m" "i < capacity_f s" "table_f s ! i = Some (k, v)"
  shows "(GetNext s ^^ (from_f s ! i)) (GetBucket hasher s k) = i \<and>
    GetBucket hasher s k = hasher k mod capacity_f s \<and>
    (GetBucket hasher s k + from_f s ! i) mod capacity_f s = i \<and>
    from_f s ! i < capacity_f s \<and>
    from_f s ! i = (i + capacity_f s - GetBucket hasher s k) mod capacity_f s \<and>
    from_f s ! i < BLOCK_SIZE s \<and>
    (\<forall>fuel e s'. insert_hm fuel hasher s e = Some (Inr s') \<longrightarrow> disp_ok hasher s' \<and> small s') \<and>
    (\<forall>key s'. erase hasher s key = Inr s' \<longrightarrow> disp_ok hasher s' \<and> small s')"
proof -
  from reach_inv [OF assms(1)] have w: "wf s" and d: "disp_ok hasher s" and sm: "small s"
    by (simp_all add: inv_def)
  from w have len: "length (table_f s) = capacity_f s" by (simp add: wf_def)
  from disp_okD [OF d _ assms(3)] assms(2) len
  have f: "from_f s ! i < BLOCK_SIZE s" "(hasher k + from_f s ! i) mod capacity_f s = i"
    by simp_all
  have c1: "(GetNext s ^^ (from_f s ! i)) (GetBucket hasher s k) = i"
    using f(2) by (simp add: probe_funpow [OF w] probe_def)
  have c2: "GetBucket hasher s k = hasher k mod capacity_f s" by (rule GetBucket_mod [OF w])
  have c3: "(GetBucket hasher s k + from_f s ! i) mod capacity_f s = i"
    using f(2) by (simp add: c2 mod_add_left_eq)
  have c4: "from_f s ! i < capacity_f s"
    using sm assms(2,3) len by (simp add: small_def)
  have c4': "from_f s ! i = (i + capacity_f s - GetBucket hasher s k) mod capacity_f s"
    by (rule steps_unique [OF GetBucket_less [OF w] c4 c3, symmetric])
  have c5: "\<forall>fuel e s'. insert_hm fuel hasher s e = Some (Inr s') \<longrightarrow> disp_ok hasher s' \<and> small s'"
  proof (intro allI impI)
    fix fuel e s' assume "insert_hm fuel hasher s e = Some (Inr s')"
    then have "insert_hm fuel hasher s (fst e, snd e) = Some (Inr s')" by simp
    from reach_inv [OF reach_insert [OF assms(1) this]] show "disp_ok hasher s' \<and> small s'"
      by (simp add: inv_def)
  qed
  have c6: "\<forall>key s'. erase hasher s key = Inr s' \<longrightarrow> disp_ok hasher s' \<and> small s'"
  proof (intro allI impI)
    fix key s' assume "erase hasher s key = Inr s'"
    from reach_inv [OF reach_erase [OF assms(1) this]] show "disp_ok hasher s' \<and> small s'"
      by (simp add: inv_def)
  qed
  show ?thesis
    by (rule conjI [OF c1 conjI [OF c2 conjI [OF c3 conjI [OF c4 conjI [OF c4'
          conjI [OF f(1) conjI [OF c5 c6]]]]]]])
qed

theorem C6_displacement_witness:
  "reach (\<lambda>k. k) [] tab2 spec_A \<and> (2::nat) < capacity_f tab2 \<and> table_f tab2 ! 2 = Some (2, ''b'') \<and>
   (GetNext tab2 ^^ (from_f tab2 ! 2)) (GetBucket (\<lambda>k. k) tab2 2) = 2 \<and>
   from_f tab2 ! 2 < capacity_f tab2 \<and> from_f tab2 ! 2 < BLOCK_SIZE tab2"
proof -
  have h: "(2::nat) < capacity_f tab2" "table_f tab2 ! 2 = Some (2, ''b'')"
    by (simp_all add: tab2_def)
  from C6_displacement [OF tab2_reach h] tab2_reach h show ?thesis by blast
qed

text \<open>
  Claim C7. In every reachable table, \<open>erase\<close> of a key without an entry returns the
  table unchanged. \<open>erase\<close> of a key bound to \<open>v\<close> empties the one slot that
  \<open>FindPosition\<close> returns for the key and decrements the size, which is positive; every
  other slot and every displacement counter stay as they are (no tombstone is written and
  no entry is moved). In the resulting table \<open>find_hm\<close> returns the end iterator for the
  key and \<open>at\<close> fails with \<open>KeyNotFound\<close>.
\<close>

theorem C7_erase:
  assumes "reach hasher dflt s m"
  shows "(m key = None \<longrightarrow> erase hasher s key = Inr s) \<and>
    (\<forall>v. m key = Some v \<longrightarrow>
       (\<exists>i < capacity_f s. FindPosition hasher s key = Inr i \<and> table_f s ! i = Some (key, v) \<and>
          0 < size_f s \<and>
          erase hasher s key =
            Inr (s\<lparr>size_f := size_f s - 1, table_f := (table_f s)[i := None]\<rparr>) \<and>
          find_hm hasher (s\<lparr>size_f := size_f s - 1, table_f := (table_f s)[i := None]\<rparr>) key =
            Inr (end_it (s\<lparr>size_f := size_f s - 1, table_f := (table_f s)[i := None]\<rparr>)) \<and>
          at hasher (s\<lparr>size_f := size_f s - 1, table_f := (table_f s)[i := None]\<rparr>) key =
            Inl KeyNotFound))"
proof -
  from reach_inv [OF assms] have i: "inv hasher s" by simp
  have c1: "m key = None \<longrightarrow> erase hasher s key = Inr s"
    using erase_absent [OF i reach_absent [OF assms]] by blast
  have c2: "\<forall>v. m key = Some v \<longrightarrow>
       (\<exists>i < capacity_f s. FindPosition hasher s key = Inr i \<and> table_f s ! i = Some (key, v) \<and>
          0 < size_f s \<and>
          erase hasher s key =
            Inr (s\<lparr>size_f := size_f s - 1, table_f := (table_f s)[i := None]\<rparr>) \<and>
          find_hm hasher (s\<lparr>size_f := size_f s - 1, table_f := (table_f s)[i := None]\<rparr>) key =
            Inr (end_it (s\<lparr>size_f := size_f s - 1, table_f := (table_f s)[i := None]\<rparr>)) \<and>
          at hasher (s\<lparr>size_f := size_f s - 1, table_f := (table_f s)[i := None]\<rparr>) key =
            Inl KeyNotFound)"
  proof (intro allI impI)
    fix v assume "m key = Some v"
    from reach_present [OF assms this]
    obtain j where j: "j < capacity_f s" "table_f s ! j = Some (key, v)" by blast
    define s' where "s' = s\<lparr>size_f := size_f s - 1, table_f := (table_f s)[j := None]\<rparr>"
    from erase_present [OF i j]
    have e: "erase hasher s key = Inr s'" "inv hasher s'" "0 < size_f s"
      "key \<notin> fst ` set (collect_values s')" by (simp_all add: s'_def)
    from find_hm_absent [OF e(2,4)] have f: "find_hm hasher s' key = Inr (end_it s')" .
    then have a: "at hasher s' key = Inl KeyNotFound" by (simp add: at_def)
    from FindPosition_present [OF i j] have p: "FindPosition hasher s key = Inr j" by simp
    from j p e(1,3) f a
    show "\<exists>i < capacity_f s. FindPosition hasher s key = Inr i \<and> table_f s ! i = Some (key, v) \<and>
          0 < size_f s \<and>
          erase hasher s key =
            Inr (s\<lparr>size_f := size_f s - 1, table_f := (table_f s)[i := None]\<rparr>) \<and>
          find_hm hasher (s\<lparr>size_f := size_f s - 1, table_f := (table_f s)[i := None]\<rparr>) key =
            Inr (end_it (s\<lparr>size_f := size_f s - 1, table_f := (table_f s)[i := None]\<rparr>)) \<and>
          at hasher (s\<lparr>size_f := size_f s - 1, table_f := (table_f s)[i := None]\<rparr>) key =
            Inl KeyNotFound"
      unfolding s'_def by blast
  qed
  show ?thesis by (rule conjI [OF c1 c2])
qed

theorem C7_erase_witness:
  "reach (\<lambda>k. k) [] tab2 spec_A \<and> spec_A 2 = Some ''b'' \<and> spec_A 3 = None \<and>
   erase (\<lambda>k. k) tab2 3 = Inr tab2 \<and>
   (\<exists>i < capacity_f tab2. erase (\<lambda>k. k) tab2 2 =
      Inr (tab2\<lparr>size_f := size_f tab2 - 1, table_f := (table_f tab2)[i := None]\<rparr>))"
proof -
  from C7_erase [OF tab2_reach, of 3] spec_A_3 have "erase (\<lambda>k. k) tab2 3 = Inr tab2" by blast
  moreover from C7_erase [OF tab2_reach, of 2] spec_A_2
  have "\<exists>i < capacity_f tab2. erase (\<lambda>k. k) tab2 2 =
      Inr (tab2\<lparr>size_f := size_f tab2 - 1, table_f := (table_f tab2)[i := None]\<rparr>)" by blast
  ultimately show ?thesis using tab2_reach spec_A_2 spec_A_3 by blast
qed

text \<open>
  Claim C9. In every reachable table, the traversal from \<open>begin_it\<close> to \<open>end_it\<close> yields the
  entries of the occupied slots in slot order, the empty slots being skipped. Their
  number is \<open>size_hm\<close>, their keys are pairwise distinct, and as a set they are the
  bindings of the specification's map. \<open>begin_it\<close> is \<open>end_it\<close> exactly when the table is
  empty.
\<close>

theorem C9_traversal:
  assumes "reach hasher dflt s m"
  shows "traverse s = Inr (map the (filter (\<lambda>x. x \<noteq> None) (table_f s))) \<and>
    (\<exists>es. traverse s = Inr es \<and> length es = size_hm s \<and> distinct (map fst es) \<and>
       set es = {(k, v). m k = Some v}) \<and>
    (begin_it s = Inr (end_it s) \<longleftrightarrow> empty_hm s)"
proof -
  from reach_inv [OF assms] have i: "inv hasher s" and a: "abstracts s m" by simp_all
  from i have pos: "0 < length (table_f s)" using wf_pos [of s] by (simp add: inv_def wf_def)
  from i have sz: "size_f s = length (collect_values s)"
    and d: "distinct (map fst (collect_values s))" by (simp_all add: inv_def)
  have t: "traverse s = Inr (collect_values s)" by (rule traverse_spec(1) [OF pos])
  have c1: "traverse s = Inr (map the (filter (\<lambda>x. x \<noteq> None) (table_f s)))"
    using t by (simp add: collect_values_def)
  have st: "set (collect_values s) = {(k, v). m k = Some v}"
    using a by (auto simp: abstracts_def)
  have c2: "\<exists>es. traverse s = Inr es \<and> length es = size_hm s \<and> distinct (map fst es) \<and>
       set es = {(k, v). m k = Some v}"
    using t sz d st by (simp add: size_hm_def)
  from traverse_spec(2) [OF pos]
  obtain j where j: "begin_it s = Inr j" "j = end_it s \<longleftrightarrow> collect_values s = []" by blast
  have c3: "begin_it s = Inr (end_it s) \<longleftrightarrow> empty_hm s"
    using j sz by (simp add: empty_hm_def size_hm_def)
  show ?thesis by (rule conjI [OF c1 conjI [OF c2 c3]])
qed

theorem C9_traversal_witness:
  "reach (\<lambda>k. k) [] tab2 spec_A \<and> traverse tab2 = Inr [(1, ''a''), (2, ''b'')] \<and>
   size_hm tab2 = 2 \<and> begin_it tab2 \<noteq> Inr (end_it tab2)"
proof -
  have v: "map the (filter (\<lambda>x. x \<noteq> None) (table_f tab2)) = [(1, ''a''), (2, ''b'')]"
    by (simp add: tab2_def)
  have e: "\<not> empty_hm tab2" by (simp add: empty_hm_def size_hm_def tab2_def)
  from C9_traversal [OF tab2_reach] v e tab2_reach tab2_size show ?thesis by simp
qed

subsection \<open>A table has room for only so many entries of neighbouring buckets\<close>

lemma live_append: "live (xs @ ys) = live xs @ live ys"
  by (simp add: live_def)

lemma length_filter_live:
  "length (filter P (live t)) = card {i. i < length t \<and> (\<exists>e. t ! i = Some e \<and> P e)}"
proof (induction t rule: rev_induct)
  case Nil
  show ?case by (simp add: live_def)
next
  case (snoc x t)
  let ?A = "{i. i < length t \<and> (\<exists>e. t ! i = Some e \<and> P e)}"
  have fin: "finite ?A" by simp
  have notin: "length t \<notin> ?A" by simp
  have split: "{i. i < length (t @ [x]) \<and> (\<exists>e. (t @ [x]) ! i = Some e \<and> P e)} =
      (if \<exists>e. x = Some e \<and> P e then insert (length t) ?A else ?A)"
    by (auto simp: nth_append less_Suc_eq)
  have "length (filter P (live (t @ [x]))) =
      length (filter P (live t)) + (if \<exists>e. x = Some e \<and> P e then 1 else 0)"
    by (cases x) (simp_all add: live_append live_Cons live_def)
  also have "\<dots> = card ?A + (if \<exists>e. x = Some e \<and> P e then 1 else 0)"
    by (simp only: snoc.IH)
  also have "\<dots> = card (if \<exists>e. x = Some e \<and> P e then insert (length t) ?A else ?A)"
    using fin notin by simp
  finally show ?case by (simp only: split)
qed

lemma live_length_le: "length (live t) \<le> length t"
  by (simp add: live_def)

lemma no_room:
  assumes "inv hasher s" "BLOCK_SIZE s = 64" "\<forall>e \<in> set (collect_values s). hasher (fst e) < 3"
  shows "length (collect_values s) \<le> 66"
proof (cases "capacity_f s \<le> 66")
  case True
  from assms(1) have "length (table_f s) = capacity_f s" by (simp add: inv_def wf_def)
  with True live_length_le [of "table_f s"] show ?thesis by (simp add: collect_values_live)
next
  case False
  from assms(1) have d: "disp_ok hasher s" and len: "length (table_f s) = capacity_f s"
    by (simp_all add: inv_def wf_def)
  let ?A = "{i. i < length (table_f s) \<and> (\<exists>e. table_f s ! i = Some e \<and> True)}"
  have "?A \<subseteq> {..<66}"
  proof
    fix i assume "i \<in> ?A"
    then obtain e where i: "i < length (table_f s)" and e: "table_f s ! i = Some e" by auto
    from disp_okD [OF d i e] assms(2)
    have f: "from_f s ! i < 64" "(hasher (fst e) + from_f s ! i) mod capacity_f s = i" by simp_all
    from i e have "e \<in> set (collect_values s)" by (auto simp: collect_values_live in_live_iff)
    with assms(3) have "hasher (fst e) < 3" by blast
    with f(1) have "hasher (fst e) + from_f s ! i < 66" by simp
    with False f(2) show "i \<in> {..<66}" by simp
  qed
  then have "card ?A \<le> card {..<66::nat}" by (intro card_mono) simp_all
  moreover have "length (collect_values s) = card ?A"
    using length_filter_live [of "\<lambda>e. True" "table_f s"] by (simp add: collect_values_live)
  ultimately show ?thesis by simp
qed

subsection \<open>The probe limit when every cluster is small\<close>

lemma filter_length_mono:
  assumes "mset vs \<subseteq># mset ws"
  shows "length (filter Q vs) \<le> length (filter Q ws)"
proof -
  from assms have "filter_mset Q (mset vs) \<subseteq># filter_mset Q (mset ws)"
    by (rule multiset_filter_mono)
  then have "size (filter_mset Q (mset vs)) \<le> size (filter_mset Q (mset ws))"
    by (rule size_mset_mono)
  moreover have "size (filter_mset Q (mset xs)) = length (filter Q xs)" for xs :: "'a list"
    using size_mset [of "filter Q xs"] by (simp only: mset_filter)
  ultimately show ?thesis by simp
qed

lemma cluster_small:
  assumes "mset vs \<subseteq># mset ws" "\<forall>e \<in> set ws. hasher (fst e) < 3"
    "\<forall>b. length (filter (\<lambda>e. hasher (fst e) = b) ws) \<le> 32"
    "grow_capacity (length vs) 1 = Some c"
  shows "max DEFAULT_BLOCK_SIZE (2 * cluster_max hasher c vs) = 64"
proof -
  from grow_capacity_spec [OF is_pow2_1, of "length vs"] assms(4)
  have c: "is_pow2 c" "length vs * 5 \<le> c" by auto
  from c(1) have pos: "0 < c" by (rule is_pow2_pos)
  have sub: "set vs \<subseteq> set ws" using set_mset_mono [OF assms(1)] by simp
  have each: "length (filter (\<lambda>e. hasher (fst e) mod c = b) vs) \<le> 32" for b
  proof (cases "c < 3")
    case True
    with c(2) have "length vs < 1" by linarith
    then show ?thesis by simp
  next
    case False
    have "filter (\<lambda>e. hasher (fst e) mod c = b) vs = filter (\<lambda>e. hasher (fst e) = b) vs"
    proof (rule filter_cong [OF refl])
      fix e assume "e \<in> set vs"
      with sub assms(2) have "hasher (fst e) < 3" by blast
      with False show "(hasher (fst e) mod c = b) = (hasher (fst e) = b)" by simp
    qed
    moreover have "length (filter (\<lambda>e. hasher (fst e) = b) vs) \<le>
        length (filter (\<lambda>e. hasher (fst e) = b) ws)"
      by (rule filter_length_mono [OF assms(1)])
    moreover have "length (filter (\<lambda>e. hasher (fst e) = b) ws) \<le> 32"
      using assms(3) by (rule spec)
    ultimately show ?thesis by simp
  qed
  have "cluster_max hasher c vs \<le> 32"
    unfolding cluster_max_def
  proof (rule Max.boundedI)
    show "finite ((\<lambda>b. length (filter (\<lambda>e. hasher (fst e) mod c = b) vs)) ` {..<c})" by simp
    show "(\<lambda>b. length (filter (\<lambda>e. hasher (fst e) mod c = b) vs)) ` {..<c} \<noteq> {}"
      using pos by auto
    fix a assume "a \<in> (\<lambda>b. length (filter (\<lambda>e. hasher (fst e) mod c = b) vs)) ` {..<c}"
    then obtain b where "a = length (filter (\<lambda>e. hasher (fst e) mod c = b) vs)" by auto
    with each [of b] show "a \<le> 32" by simp
  qed
  then show ?thesis by (simp add: DEFAULT_BLOCK_SIZE_def)
qed

lemma tracked_64:
  assumes "tracked hasher s M s'" "BLOCK_SIZE s = 64" "M \<subseteq># mset ws"
    "\<forall>e \<in> set ws. hasher (fst e) < 3"
    "\<forall>b. length (filter (\<lambda>e. hasher (fst e) = b) ws) \<le> 32"
  shows "BLOCK_SIZE s' = 64"
proof (cases "capacity_f s' = capacity_f s \<and> BLOCK_SIZE s' = BLOCK_SIZE s")
  case True
  with assms(2) show ?thesis by simp
next
  case False
  with assms(1) obtain vs where vs: "mset vs \<subseteq># M" "rebuilt hasher vs s'"
    by (auto simp: tracked_def)
  from vs(1) assms(3) have "mset vs \<subseteq># mset ws" by (rule subset_mset.order_trans)
  from cluster_small [OF this assms(4,5)] vs(2) show ?thesis by (simp add: rebuilt_def)
qed

subsection \<open>Sixty-seven keys in three neighbouring buckets\<close>

lemma keys67_split: "keys67 = keys66 @ [(66, ())]"
proof -
  have "[0..<67] = [0..<66] @ [66::nat]" using upt_Suc_append [of 0 66] by simp
  then show ?thesis by (simp add: keys67_def keys66_def)
qed

lemma keys67_distinct: "distinct (map fst keys67)"
  by (simp add: keys67_def comp_def)

lemma keys67_hash: "\<forall>e \<in> set keys67. hash_mod3 (fst e) < 3"
  by (simp add: hash_mod3_def)

lemma keys67_clusters: "length (filter (\<lambda>e. hash_mod3 (fst e) = b) keys67) \<le> 32"
proof -
  have eq: "length (filter (\<lambda>e. hash_mod3 (fst e) = b) keys67) =
      length (filter (\<lambda>k. k mod 3 = b) [0..<67])"
    by (simp add: keys67_def hash_mod3_def filter_map comp_def)
  have c0: "length (filter (\<lambda>k. k mod 3 = 0) [0..<67]) \<le> 32" by code_simp
  have c1: "length (filter (\<lambda>k. k mod 3 = 1) [0..<67]) \<le> 32" by code_simp
  have c2: "length (filter (\<lambda>k. k mod 3 = 2) [0..<67]) \<le> 32" by code_simp
  consider "b = 0" | "b = 1" | "b = 2" | "3 \<le> b" by linarith
  then have "length (filter (\<lambda>k. k mod 3 = b) [0..<67]) \<le> 32"
  proof cases
    case 1
    show ?thesis unfolding 1 by (rule c0)
  next
    case 2
    show ?thesis unfolding 2 by (rule c1)
  next
    case 3
    show ?thesis unfolding 3 by (rule c2)
  next
    case 4
    then have "filter (\<lambda>k. k mod 3 = b) [0..<67] = []"
      by (auto simp: filter_empty_conv)
    then show ?thesis by simp
  qed
  with eq show ?thesis by simp
qed

lemma stuck:
  assumes "inv hash_mod3 s" "BLOCK_SIZE s = 64"
    "add_mset e (mset (collect_values s)) = mset keys67"
  shows "insert_loop fuel hash_mod3 s e = None"
proof (rule ccontr)
  assume "insert_loop fuel hash_mod3 s e \<noteq> None"
  then obtain r where r: "insert_loop fuel hash_mod3 s e = Some r" by blast
  from assms(3) have "mset (e # collect_values s) = mset keys67" by simp
  from distinct_keys_mset [OF this] keys67_distinct
  have fresh: "fst e \<notin> fst ` set (collect_values s)" by simp
  from insert_loop_good [of hash_mod3 fuel, unfolded good_ins_def, rule_format, OF assms(1) fresh r]
  obtain s' where s': "inv hash_mod3 s'"
    "mset (collect_values s') = add_mset e (mset (collect_values s))"
    "tracked hash_mod3 s (add_mset e (mset (collect_values s))) s'" by blast
  from s'(2) assms(3) have eq: "mset (collect_values s') = mset keys67" by simp
  from tracked_64 [OF s'(3) assms(2) _ keys67_hash] keys67_clusters assms(3)
  have b: "BLOCK_SIZE s' = 64" by simp
  from eq have "set (collect_values s') = set keys67" by (rule mset_eq_setD)
  with keys67_hash have "\<forall>e \<in> set (collect_values s'). hash_mod3 (fst e) < 3" by simp
  from no_room [OF s'(1) b this] have "length (collect_values s') \<le> 66" .
  moreover from arg_cong [OF eq, of size] have "length (collect_values s') = 67"
    by (simp add: keys67_def)
  ultimately show False by simp
qed

lemma insert_all_append:
  "insert_all ins s (xs @ ys) =
     (case insert_all ins s xs of
        None \<Rightarrow> None
      | Some (Inl e) \<Rightarrow> Some (Inl e)
      | Some (Inr s') \<Rightarrow> insert_all ins s' ys)"
  by (induction xs arbitrary: s) (auto split: option.splits sum.splits)

lemma after_keys66:
  assumes "insert_all (insert_hm fuel hash_mod3) construct keys66 = Some r"
  obtains s where "r = Inr s" "inv hash_mod3 s" "BLOCK_SIZE s = 64"
    "mset (collect_values s) = mset keys66" "66 \<notin> fst ` set (collect_values s)"
proof -
  have cv: "collect_values (construct :: (nat, unit) HashMap) = []"
    by (simp add: construct_def collect_values_def)
  have d: "distinct (map fst (collect_values (construct :: (nat, unit) HashMap) @ keys66))"
    by (simp add: cv keys66_def comp_def)
  from insert_all_good [OF insert_hm_good inv_construct d assms]
  obtain s where s: "r = Inr s" "inv hash_mod3 s" "mset (collect_values s) = mset keys66"
    "tracked hash_mod3 construct (mset keys66) s" by (auto simp: cv)
  have sub: "mset keys66 \<subseteq># mset keys67" by (simp add: keys67_split)
  have "BLOCK_SIZE (construct :: (nat, unit) HashMap) = 64"
    by (simp add: construct_def DEFAULT_BLOCK_SIZE_def)
  from tracked_64 [OF s(4) this sub keys67_hash] keys67_clusters
  have b: "BLOCK_SIZE s = 64" by simp
  from s(3) have "set (collect_values s) = set keys66" by (rule mset_eq_setD)
  then have "66 \<notin> fst ` set (collect_values s)" by (auto simp: keys66_def)
  with s b that show ?thesis by blast
qed

lemma insert_66_stuck:
  assumes "insert_all (insert_hm fuel hash_mod3) construct keys66 = Some (Inr s)"
  shows "insert_hm fuel' hash_mod3 s (66, ()) = None"
proof -
  from after_keys66 [OF assms]
  have s: "inv hash_mod3 s" "BLOCK_SIZE s = 64" "mset (collect_values s) = mset keys66"
    "66 \<notin> fst ` set (collect_values s)" by auto
  from s(3) have "add_mset (66, ()) (mset (collect_values s)) = mset keys67"
    by (simp add: keys67_split)
  from stuck [OF s(1,2) this] find_hm_absent [OF s(1,4)] show ?thesis
    by (simp add: insert_hm_def insert_with_def)
qed

text \<open>
  Claim C4 (refuted). With the hash function \<open>k mod 3\<close>, the sixty-seven insertions of the
  keys 0, ..., 66 into the empty table never all return, whatever the fuel: after a
  rebuild the capacity is 512 and the probe limit 64 again (no bucket holds more than 23
  keys), a table with probe limit 64 has room for only 66 keys of the buckets 0, 1 and
  2, and so the walk fails and the next rebuild computes the same capacity and the same
  probe limit.
\<close>

theorem C4_insert_diverges:
  "insert_all (insert_hm fuel hash_mod3) construct keys67 = None"
proof (cases "insert_all (insert_hm fuel hash_mod3) construct keys66")
  case None
  then show ?thesis by (simp add: keys67_split insert_all_append)
next
  case (Some r)
  from after_keys66 [OF Some] obtain s where s: "r = Inr s" by blast
  with Some have run: "insert_all (insert_hm fuel hash_mod3) construct keys66 = Some (Inr s)"
    by simp
  from insert_66_stuck [OF run, of fuel] run show ?thesis
    by (simp add: keys67_split insert_all_append)
qed

text \<open>
  Claim C8 (refuted for the index operator). With the hash function \<open>k mod 3\<close>, once the
  keys 0, ..., 65 are in the table, the index operator applied to the absent key 66
  never returns, whatever the fuel: it calls \<open>insert\<close>, which does not return.
\<close>

theorem C8_index_diverges:
  "(case insert_all (insert_hm fuel hash_mod3) construct keys66 of
      Some (Inr s) \<Rightarrow> index_op fuel' hash_mod3 () s 66
    | _ \<Rightarrow> None) = None"
proof (cases "insert_all (insert_hm fuel hash_mod3) construct keys66")
  case None
  then show ?thesis by simp
next
  case (Some r)
  from after_keys66 [OF Some] obtain s where s: "r = Inr s" "inv hash_mod3 s"
    "66 \<notin> fst ` set (collect_values s)" by blast
  with Some have run: "insert_all (insert_hm fuel hash_mod3) construct keys66 = Some (Inr s)"
    by simp
  from insert_66_stuck [OF run, of fuel'] find_hm_absent [OF s(2,3)] run show ?thesis
    by (simp add: index_op_def)
qed

subsection \<open>Room for the entries of neighbouring buckets, in general\<close>

lemma room:
  assumes "inv hasher s" "z + BLOCK_SIZE s \<le> capacity_f s + 1"
    "\<forall>e \<in> set (collect_values s). P e \<longrightarrow> hasher (fst e) mod capacity_f s < z"
  shows "length (filter P (collect_values s)) + 1 \<le> z + BLOCK_SIZE s"
proof -
  from assms(1) have d: "disp_ok hasher s" and len: "length (table_f s) = capacity_f s"
    and w: "wf s" and bs: "0 < BLOCK_SIZE s"
    by (simp_all add: inv_def wf_def DEFAULT_BLOCK_SIZE_def)
  let ?A = "{i. i < length (table_f s) \<and> (\<exists>e. table_f s ! i = Some e \<and> P e)}"
  have "?A \<subseteq> {..<z + BLOCK_SIZE s - 1}"
  proof
    fix i assume "i \<in> ?A"
    then obtain e where i: "i < length (table_f s)" and e: "table_f s ! i = Some e" and p: "P e"
      by auto
    from disp_okD [OF d i e]
    have f: "from_f s ! i < BLOCK_SIZE s" "(hasher (fst e) + from_f s ! i) mod capacity_f s = i"
      by simp_all
    from i e have "e \<in> set (collect_values s)" by (auto simp: collect_values_live in_live_iff)
    with assms(3) p have b: "hasher (fst e) mod capacity_f s < z" by blast
    from f(2) have "(hasher (fst e) mod capacity_f s + from_f s ! i) mod capacity_f s = i"
      by (simp add: mod_add_left_eq)
    moreover from b f(1) assms(2) have "hasher (fst e) mod capacity_f s + from_f s ! i < capacity_f s"
      by linarith
    ultimately have "hasher (fst e) mod capacity_f s + from_f s ! i = i" by simp
    with b f(1) show "i \<in> {..<z + BLOCK_SIZE s - 1}" by auto
  qed
  then have "card ?A \<le> card {..<z + BLOCK_SIZE s - 1}" by (intro card_mono) simp_all
  then have c: "card ?A \<le> z + BLOCK_SIZE s - 1" by (simp only: card_lessThan)
  have l: "length (filter P (collect_values s)) = card ?A"
    unfolding collect_values_live by (rule length_filter_live)
  from c l bs show ?thesis by linarith
qed

lemma cluster_max_le:
  assumes "mset vs \<subseteq># mset ws" "0 < c"
    "\<forall>b. length (filter (\<lambda>e. hasher (fst e) mod c = b) ws) \<le> n"
  shows "cluster_max hasher c vs \<le> n"
  unfolding cluster_max_def
proof (rule Max.boundedI)
  show "finite ((\<lambda>b. length (filter (\<lambda>e. hasher (fst e) mod c = b) vs)) ` {..<c})" by simp
  show "(\<lambda>b. length (filter (\<lambda>e. hasher (fst e) mod c = b) vs)) ` {..<c} \<noteq> {}"
    using assms(2) by auto
  fix a assume "a \<in> (\<lambda>b. length (filter (\<lambda>e. hasher (fst e) mod c = b) vs)) ` {..<c}"
  then obtain b where a: "a = length (filter (\<lambda>e. hasher (fst e) mod c = b) vs)" by auto
  have "length (filter (\<lambda>e. hasher (fst e) mod c = b) vs) \<le>
      length (filter (\<lambda>e. hasher (fst e) mod c = b) ws)"
    by (rule filter_length_mono [OF assms(1)])
  moreover have "length (filter (\<lambda>e. hasher (fst e) mod c = b) ws) \<le> n"
    using assms(3) by (rule spec)
  ultimately show "a \<le> n" using a by simp
qed

lemma is_pow2_1024:
  assumes "is_pow2 c" "512 < c" "c < 1030"
  shows "c = 1024"
proof -
  from assms(1) obtain j where c: "c = 2 ^ j" by (auto simp: is_pow2_def)
  have "9 < j"
  proof (rule ccontr)
    assume "\<not> 9 < j"
    then have "j \<le> 9" by simp
    then have "(2::nat) ^ j \<le> 2 ^ 9" by (intro power_increasing) simp_all
    with assms(2) c show False by simp
  qed
  moreover have "j < 11"
  proof (rule ccontr)
    assume "\<not> j < 11"
    then have "11 \<le> j" by simp
    then have "(2::nat) ^ 11 \<le> 2 ^ j" by (intro power_increasing) simp_all
    with assms(3) c show False by simp
  qed
  ultimately have "j = 10" by simp
  with c show ?thesis by simp
qed

lemma mset_subset_same_size:
  assumes "A \<subseteq># B" "size A = size B"
  shows "A = B"
proof (rule ccontr)
  assume "A \<noteq> B"
  with assms(1) have "A \<subset># B" by (rule subset_mset.le_neq_trans)
  then have "size A < size B" by (rule mset_subset_size)
  with assms(2) show False by simp
qed

lemma insert_walk_failed:
  assumes "inv hasher s" "fst e \<notin> fst ` set (collect_values s)"
    "insert_walk s (GetBucket hasher s (fst e)) 0 (Some e) = Inr (s1, Some q)"
  shows "inv hasher s1" "size_f s1 = size_f s"
    "add_mset q (mset (collect_values s1)) = add_mset e (mset (collect_values s))"
proof -
  from assms(1) have w: "wf s" and d: "disp_ok hasher s" and sz: "size_f s = length (collect_values s)"
    and dk: "distinct (map fst (collect_values s))" and bs: "DEFAULT_BLOCK_SIZE \<le> BLOCK_SIZE s"
    by (simp_all add: inv_def)
  from insert_walk_wf [OF w GetBucket_less [OF w], of hasher "fst e" 0 "Some e"] assms(3)
  have w1: "wf s1" and same: "BLOCK_SIZE s1 = BLOCK_SIZE s" "size_f s1 = size_f s" by auto
  have c0: "\<forall>e'. Some e = Some e' \<longrightarrow>
      (hasher (fst e') + 0) mod capacity_f s = GetBucket hasher s (fst e)"
    by (simp add: GetBucket_mod [OF w])
  from insert_walk_inv [OF w d GetBucket_less [OF w] c0 assms(3)]
  have d1: "disp_ok hasher s1"
    and ms: "add_mset q (mset (collect_values s1)) = add_mset e (mset (collect_values s))"
    by (simp_all add: carried_def)
  from ms have eq: "mset (q # collect_values s1) = mset (e # collect_values s)" by simp
  from arg_cong [OF eq, of size] have len: "length (collect_values s1) = length (collect_values s)"
    by simp
  from distinct_keys_mset [OF eq] dk assms(2)
  have dk1: "distinct (map fst (collect_values s1))" by simp
  show "inv hasher s1" using w1 d1 len dk1 bs same sz by (simp add: inv_def)
  show "size_f s1 = size_f s" by (rule same(2))
  show "add_mset q (mset (collect_values s1)) = add_mset e (mset (collect_values s))" by (rule ms)
qed

subsection \<open>The keys of the nested rebuild\<close>

lemma nested_distinct: "distinct (22530 # nested_keys)"
  unfolding nested_keys_def by simp

lemma residues_cover: "\<forall>k \<in> set (22530 # nested_keys). k mod 1024 \<in> set residues"
  unfolding nested_keys_def residues_def by simp

lemma residues_small:
  "\<forall>b \<in> set residues. length (filter (\<lambda>k. k mod 1024 = b) (22530 # nested_keys)) \<le> 32"
  unfolding nested_keys_def residues_def by simp

lemma nested_pattern: "length (filter (\<lambda>k. k mod 1024 < 3) (22530 # nested_keys)) = 68"
  unfolding nested_keys_def by simp

lemma nested_length: "length nested_keys = 103"
  unfolding nested_keys_def by simp

lemma nested_clusters:
  "length (filter (\<lambda>e. fst e mod 1024 = b) ((22530, ()) # nested_entries)) \<le> 32"
proof -
  have eq: "length (filter (\<lambda>e. fst e mod 1024 = b) ((22530, ()) # nested_entries)) =
      length (filter (\<lambda>k. k mod 1024 = b) (22530 # nested_keys))"
    using length_map [of "\<lambda>k. (k, ())" "filter (\<lambda>k. k mod 1024 = b) (22530 # nested_keys)"]
    by (simp add: nested_entries_def filter_map comp_def)
  show ?thesis
  proof (cases "b \<in> set residues")
    case True
    with residues_small eq show ?thesis by simp
  next
    case False
    with residues_cover have "\<forall>k \<in> set (22530 # nested_keys). k mod 1024 \<noteq> b" by metis
    then have "filter (\<lambda>k. k mod 1024 = b) (22530 # nested_keys) = []"
      by (simp only: filter_empty_conv)
    with eq show ?thesis by simp
  qed
qed

lemma nested_pattern_entries:
  "length (filter (\<lambda>e. fst e mod 1024 < 3) ((22530, ()) # nested_entries)) = 68"
  using nested_pattern
    length_map [of "\<lambda>k. (k, ())" "filter (\<lambda>k. k mod 1024 < 3) (22530 # nested_keys)"]
  by (simp add: nested_entries_def filter_map comp_def)

lemma nested_entries_distinct: "distinct (map fst ((22530, ()) # nested_entries))"
  using nested_distinct by (simp add: nested_entries_def comp_def)

text \<open>
  Claim C5 (refuted for a rebuild whose reinsertions rebuild again). The hash function is
  the identity. The 103 keys of \<open>nested_keys\<close> are inserted into the empty table, and
  then the key 22530. If these insertions return, and the walk for 22530 ends with an
  entry still in hand, \<open>Rebuild\<close> is called on a table of 103 entries. Whenever that call
  returns, it returns a table of 103 entries whose capacity is at most 512, less than
  5 * 103: the capacity 1024 that the call chooses does not survive, since with it the
  probe limit is 64 and the 67 entries of the buckets 0, 1 and 2 do not fit, so a
  reinsertion rebuilds the table again, for the fewer entries reinserted so far.
\<close>

theorem C5_nested_rebuild_shrinks:
  "(case insert_all (insert_hm fuel (\<lambda>k. k)) construct nested_entries of
      None \<Rightarrow> True
    | Some (Inl err) \<Rightarrow> False
    | Some (Inr s) \<Rightarrow>
        (case insert_walk s (GetBucket (\<lambda>k. k) s 22530) 0 (Some (22530, ())) of
           Inl err \<Rightarrow> False
         | Inr (s1, None) \<Rightarrow> True
         | Inr (s1, Some p) \<Rightarrow>
             (case Rebuild fuel' (\<lambda>k. k) s1 of
                None \<Rightarrow> True
              | Some (Inl err) \<Rightarrow> False
              | Some (Inr s2) \<Rightarrow>
                  size_f s1 = 103 \<and> size_f s2 = 103 \<and> capacity_f s2 \<le> 512 \<and>
                  capacity_f s2 < 5 * size_f s2)))"
proof (cases "insert_all (insert_hm fuel (\<lambda>k. k)) construct nested_entries")
  case None
  then show ?thesis by simp
next
  case (Some r)
  let ?h = "\<lambda>k::nat. k"
  let ?x = "(22530::nat, ())"
  have cv: "collect_values (construct :: (nat, unit) HashMap) = []"
    by (simp add: construct_def collect_values_def)
  have d: "distinct (map fst (collect_values (construct :: (nat, unit) HashMap) @ nested_entries))"
    using nested_entries_distinct by (simp add: cv)
  from insert_all_good [OF insert_hm_good inv_construct d Some]
  obtain s where s: "r = Inr s" "inv ?h s" "mset (collect_values s) = mset nested_entries"
    by (auto simp: cv)
  from s(3) have "set (collect_values s) = set nested_entries" by (rule mset_eq_setD)
  with nested_entries_distinct have fresh: "fst ?x \<notin> fst ` set (collect_values s)" by simp
  from s(2) have w: "wf s" and sz: "size_f s = length (collect_values s)" by (simp_all add: inv_def)
  from arg_cong [OF s(3), of size] sz have sz103: "size_f s = 103"
    by (simp add: nested_entries_def nested_length)
  from insert_walk_wf [OF w GetBucket_less [OF w], of ?h 22530 0 "Some ?x"]
  obtain s1 p where walk: "insert_walk s (GetBucket ?h s 22530) 0 (Some ?x) = Inr (s1, p)" by blast
  show ?thesis
  proof (cases p)
    case None
    with Some s(1) walk show ?thesis by simp
  next
    case (Some q)
    with walk have walk': "insert_walk s (GetBucket ?h s (fst ?x)) 0 (Some ?x) = Inr (s1, Some q)"
      by simp
    from insert_walk_failed [OF s(2) fresh walk']
    have s1: "inv ?h s1" "size_f s1 = size_f s"
      "add_mset q (mset (collect_values s1)) = add_mset ?x (mset (collect_values s))" by simp_all
    from s1(3) s(3) have all: "add_mset q (mset (collect_values s1)) = mset (?x # nested_entries)"
      by simp
    have "mset (collect_values s1) \<subseteq># add_mset q (mset (collect_values s1))" by simp
    then have sub1: "mset (collect_values s1) \<subseteq># mset (?x # nested_entries)"
      unfolding all .
    show ?thesis
    proof (cases "Rebuild fuel' ?h s1")
      case None
      with \<open>insert_all (insert_hm fuel ?h) construct nested_entries = Some r\<close> s(1) walk Some
      show ?thesis by simp
    next
      case (Some r2)
      from Rebuild_with_good [OF insert_hm_good s1(1) Some [unfolded Rebuild_def]]
      obtain s2 vs where s2: "r2 = Inr s2" "inv ?h s2"
        "mset (collect_values s2) = mset (collect_values s1)"
        "mset vs \<subseteq># mset (collect_values s1)" "rebuilt ?h vs s2" by blast
      from s1(1) s1(2) sz103 have l1: "length (collect_values s1) = 103" by (simp add: inv_def)
      from arg_cong [OF s2(3), of size] l1 s2(2) have sz2: "size_f s2 = 103"
        by (simp add: inv_def)
      from size_mset_mono [OF s2(4)] l1 have lvs: "length vs \<le> 103" by simp
      from s2(5) have g: "grow_capacity (length vs) 1 = Some (capacity_f s2)"
        and b: "BLOCK_SIZE s2 = max DEFAULT_BLOCK_SIZE (2 * cluster_max ?h (capacity_f s2) vs)"
        by (simp_all add: rebuilt_def)
      from grow_capacity_spec [OF is_pow2_1, of "length vs"] g
      have c: "is_pow2 (capacity_f s2)" "capacity_f s2 = 1 \<or> capacity_f s2 < length vs * 10"
        by auto
      have small: "capacity_f s2 \<le> 512"
      proof (rule ccontr)
        assume "\<not> capacity_f s2 \<le> 512"
        then have big: "512 < capacity_f s2" by simp
        with c(2) lvs have "capacity_f s2 < 1030" by linarith
        from is_pow2_1024 [OF c(1) big this] have cap: "capacity_f s2 = 1024" .
        with c(2) lvs have "length vs = 103" by linarith
        with l1 have "size (mset vs) = size (mset (collect_values s1))" by simp
        from mset_subset_same_size [OF s2(4) this] have vs: "mset vs = mset (collect_values s1)" .
        from s2(4) sub1 have "mset vs \<subseteq># mset (?x # nested_entries)"
          by (rule subset_mset.order_trans)
        from cluster_max_le [OF this, of 1024 ?h 32] nested_clusters
        have "cluster_max ?h 1024 vs \<le> 32" by simp
        with b cap have b64: "BLOCK_SIZE s2 = 64" by (simp add: DEFAULT_BLOCK_SIZE_def)
        have "\<forall>e \<in> set (collect_values s2).
            fst e mod 1024 < 3 \<longrightarrow> fst e mod capacity_f s2 < 3" by (simp add: cap)
        from room [OF s2(2) _ this] b64 cap
        have le: "length (filter (\<lambda>e. fst e mod 1024 < 3) (collect_values s2)) \<le> 66" by simp
        from all s2(3) have "mset (q # collect_values s2) = mset (?x # nested_entries)" by simp
        then have "mset (filter (\<lambda>e. fst e mod 1024 < 3) (q # collect_values s2)) =
            mset (filter (\<lambda>e. fst e mod 1024 < 3) (?x # nested_entries))"
          by (simp only: mset_filter)
        from arg_cong [OF this, of size] nested_pattern_entries
        have "length (filter (\<lambda>e. fst e mod 1024 < 3) (q # collect_values s2)) = 68"
          by (simp only: size_mset)
        then have "67 \<le> length (filter (\<lambda>e. fst e mod 1024 < 3) (collect_values s2))"
          by (simp split: if_splits)
        with le show False by simp
      qed
      from s1(2) sz103 sz2 small
      have "size_f s1 = 103 \<and> size_f s2 = 103 \<and> capacity_f s2 \<le> 512 \<and>
          capacity_f s2 < 5 * size_f s2" by simp
      with \<open>insert_all (insert_hm fuel ?h) construct nested_entries = Some r\<close> s(1) walk
        \<open>p = Some q\<close> Some s2(1)
      show ?thesis by simp
    qed
  qed
qed

subsection \<open>Keyed access when it returns\<close>

lemma at_spec:
  assumes "reach hasher dflt s m"
  shows "(m key = None \<longrightarrow> at hasher s key = Inl KeyNotFound) \<and>
    (\<forall>v. m key = Some v \<longrightarrow> at hasher s key = Inr v)"
proof -
  from reach_inv [OF assms] have i: "inv hasher s" by simp
  have "at hasher s key = Inl KeyNotFound" if "m key = None"
    using find_hm_absent [OF i reach_absent [OF assms that]] by (simp add: at_def)
  moreover have "at hasher s key = Inr v" if "m key = Some v" for v
  proof -
    from reach_present [OF assms that]
    obtain j where j: "j < capacity_f s" "table_f s ! j = Some (key, v)" by blast
    from find_hm_present [OF i j] show ?thesis by (simp add: at_def)
  qed
  ultimately show ?thesis by blast
qed

lemma index_op_returns:
  assumes "reach hasher dflt s m" "index_op fuel hasher dflt s key = Some r"
  shows "\<exists>s' v. r = Inr (s', v) \<and> reach hasher dflt s' (spec_insert m key dflt) \<and>
    spec_insert m key dflt key = Some v \<and>
    (m key = None \<longrightarrow> v = dflt \<and> size_f s' = size_f s + 1) \<and>
    (m key \<noteq> None \<longrightarrow> s' = s)"
proof -
  from reach_inv [OF assms(1)] have i: "inv hasher s" by simp
  show ?thesis
  proof (cases "m key")
    case None
    from reach_absent [OF assms(1) None] have fr: "key \<notin> fst ` set (collect_values s)" .
    from index_op_absent [OF i fr assms(2)]
    obtain s' where s': "r = Inr (s', dflt)" "insert_hm fuel hasher s (key, dflt) = Some (Inr s')"
      by blast
    from insert_hm_absent [OF i _ s'(2)] fr have "size_f s' = size_f s + 1" by auto
    moreover from assms(2) s'(1) have "index_op fuel hasher dflt s key = Some (Inr (s', dflt))"
      by simp
    from reach_index [OF assms(1) this] have "reach hasher dflt s' (spec_insert m key dflt)" .
    moreover from None have "spec_insert m key dflt key = Some dflt"
      by (simp add: spec_insert_def dom_def)
    ultimately show ?thesis using s'(1) None by simp
  next
    case (Some v)
    from reach_present [OF assms(1) Some]
    obtain j where j: "j < capacity_f s" "table_f s ! j = Some (key, v)" by blast
    from index_op_present [OF i j, of fuel dflt] assms(2) have r: "r = Inr (s, v)" by simp
    from Some have "spec_insert m key dflt = m" by (simp add: spec_insert_def dom_def)
    with r Some assms(1) show ?thesis by simp
  qed
qed

end
